theory Spec2Isabelle
  imports Main "HOL-Library.Sublist"
begin

section \<open>Text\<close>

text \<open>
  A document is a \<^typ>\<open>string\<close>: the sequence of its code units, here the code units
  below 256. \<open>bs\<close> is the backslash, \<open>dq\<close> the double quote, and \<open>q\<close> the two
  characters backslash, double quote, which is how the listing page writes a quotation
  mark inside its embedded records.
\<close>

definition bs :: char where
  "bs = CHR 0x5C"

definition dq :: char where
  "dq = CHR 0x22"

definition q :: string where
  "q = [bs, dq]"

definition LF :: char where
  "LF = CHR 0x0A"

definition CR :: char where
  "CR = CHR 0x0D"

text \<open>White space and line terminators, as \<open>\s\<close> and \<open>trim\<close> see them.\<close>

definition is_space :: "char \<Rightarrow> bool" where
  "is_space c \<longleftrightarrow> c \<in> set [CHR 0x09, CHR 0x0A, CHR 0x0B, CHR 0x0C, CHR 0x0D, CHR 0x20, CHR 0xA0]"

definition trim :: "string \<Rightarrow> string" where
  "trim s = rev (dropWhile is_space (rev (dropWhile is_space s)))"

text \<open>
  \<open>toUpperCase\<close> on the letters a to z; other characters are left as they are. The
  program applies it to a team, which is \<open>ct\<close> or \<open>t\<close>. Under the flag \<open>i\<close> a character
  matches a character of a pattern when the two have the same upper case; the patterns
  with that flag are written with ASCII characters, which only the letters a to z and A
  to Z can match in this way.
\<close>

definition upper_char :: "char \<Rightarrow> char" where
  "upper_char c =
     (case map_of (zip ''abcdefghijklmnopqrstuvwxyz'' ''ABCDEFGHIJKLMNOPQRSTUVWXYZ'') c of
        Some u \<Rightarrow> u
      | None \<Rightarrow> c)"

definition toUpperCase :: "string \<Rightarrow> string" where
  "toUpperCase s = map upper_char s"

text \<open>\<open>s.replace(/c/g, rep)\<close> for a single character \<open>c\<close>.\<close>

definition replace_char :: "char \<Rightarrow> string \<Rightarrow> string \<Rightarrow> string" where
  "replace_char c rep s = concat (map (\<lambda>x. if x = c then rep else [x]) s)"

text \<open>\<open>items.join(sep)\<close>.\<close>

fun join :: "string \<Rightarrow> string list \<Rightarrow> string" where
  "join sep [] = []"
| "join sep [x] = x"
| "join sep (x # y # ys) = x @ sep @ join sep (y # ys)"

text \<open>\<open>s.indexOf(needle, idx)\<close>, with \<open>None\<close> for -1.\<close>

fun index_of :: "string \<Rightarrow> string \<Rightarrow> nat option" where
  "index_of needle [] = (if needle = [] then Some 0 else None)"
| "index_of needle (c # cs) =
     (if prefix needle (c # cs) then Some 0 else map_option Suc (index_of needle cs))"

definition indexOf :: "string \<Rightarrow> string \<Rightarrow> nat \<Rightarrow> nat option" where
  "indexOf s needle idx = map_option (\<lambda>k. idx + k) (index_of needle (drop idx s))"

text \<open>\<open>s.slice(start, end)\<close> for \<open>0 \<le> start\<close> and \<open>0 \<le> end\<close>.\<close>

definition slice :: "string \<Rightarrow> nat \<Rightarrow> nat \<Rightarrow> string" where
  "slice s start end = take (end - start) (drop start s)"

section \<open>Regular expressions\<close>

text \<open>
  The patterns of the program are sequences of a few kinds of items, matched by
  backtracking: \<open>Lit\<close> a literal text, \<open>LitCI\<close> a literal text under the flag \<open>i\<close>,
  \<open>PlusNot ex\<close> the greedy \<open>[^ex]+\<close>, \<open>PlusNotCI ex\<close> the same under the flag \<open>i\<close>,
  \<open>LazyAny\<close> the lazy \<open>.*?\<close> under the flag \<open>s\<close>, \<open>Alt\<close> an alternation of
  literal texts. \<open>item_matches\<close> lists what an item can consume at the start of a text, with
  the rest of the text, in the order in which the matcher tries them; \<open>seq_matches\<close> does
  the same for a sequence of items, giving the piece consumed by each item.
\<close>

datatype item =
    Lit string
  | LitCI string
  | PlusNot string
  | PlusNotCI string
  | LazyAny
  | Alt "string list"

definition splits_at :: "nat list \<Rightarrow> string \<Rightarrow> (string \<times> string) list" where
  "splits_at ns s = map (\<lambda>n. (take n s, drop n s)) ns"

fun item_matches :: "item \<Rightarrow> string \<Rightarrow> (string \<times> string) list" where
  "item_matches (Lit l) s = (if prefix l s then [(l, drop (length l) s)] else [])"
| "item_matches (LitCI l) s =
     (if length l \<le> length s \<and> map upper_char (take (length l) s) = map upper_char l
      then [(take (length l) s, drop (length l) s)] else [])"
| "item_matches (PlusNot ex) s =
     splits_at (rev [1 ..< Suc (length (takeWhile (\<lambda>c. c \<notin> set ex) s))]) s"
| "item_matches (PlusNotCI ex) s =
     splits_at
       (rev [1 ..< Suc (length (takeWhile (\<lambda>c. upper_char c \<notin> upper_char ` set ex) s))]) s"
| "item_matches LazyAny s = splits_at [0 ..< Suc (length s)] s"
| "item_matches (Alt ls) s =
     concat (map (\<lambda>l. if prefix l s then [(l, drop (length l) s)] else []) ls)"

fun seq_matches :: "item list \<Rightarrow> string \<Rightarrow> (string list \<times> string) list" where
  "seq_matches [] s = [([], s)]"
| "seq_matches (it # its) s =
     concat (map (\<lambda>(m, r). map (\<lambda>(ms, r'). (m # ms, r')) (seq_matches its r))
                 (item_matches it s))"

text \<open>
  A pattern with one capture group is the items before the group, the items of the
  group and the items after it. \<open>regex_exec\<close> tries the start positions from the left
  and takes the first match there is; it returns the text matched by each of the three
  parts.
\<close>

type_synonym regex = "item list \<times> item list \<times> item list"

fun match_here :: "regex \<Rightarrow> string \<Rightarrow> (string \<times> string \<times> string) option" where
  "match_here (pre, grp, post) s =
     (case seq_matches (pre @ grp @ post) s of
        [] \<Rightarrow> None
      | (ms, r) # _ \<Rightarrow>
          Some (concat (take (length pre) ms),
                concat (take (length grp) (drop (length pre) ms)),
                concat (drop (length pre + length grp) ms)))"

fun regex_exec :: "regex \<Rightarrow> string \<Rightarrow> (string \<times> string \<times> string) option" where
  "regex_exec re [] = match_here re []"
| "regex_exec re (c # cs) =
     (case match_here re (c # cs) of
        Some m \<Rightarrow> Some m
      | None \<Rightarrow> regex_exec re cs)"

text \<open>\<open>s.match(re)?.[1]\<close> and \<open>s.match(re)?.[0]\<close>.\<close>

definition match_group :: "regex \<Rightarrow> string \<Rightarrow> string option" where
  "match_group re s = map_option (\<lambda>(a, g, b). g) (regex_exec re s)"

definition match_whole :: "regex \<Rightarrow> string \<Rightarrow> string option" where
  "match_whole re s = map_option (\<lambda>(a, g, b). a @ g @ b) (regex_exec re s)"

section \<open>The unescaper\<close>

datatype error =
    SyntaxError
  | FetchError string
  | NoNadesError string

text \<open>
  \<open>JSON.parse\<close> on a text that is a string literal. After the opening quotation mark,
  \<open>json_string_chars\<close> reads the characters of the literal up to the closing one: a
  backslash starts an escape sequence, a character below U+0020 is not allowed, any
  other character stands for itself. An escape \<open>\uXXXX\<close> gives the code unit with that
  number (\<^const>\<open>char_of\<close> keeps it below 256). White space may surround the literal.
\<close>

definition hex_val :: "char \<Rightarrow> nat option" where
  "hex_val = map_of (zip ''0123456789abcdefABCDEF''
     [0, 1, 2, 3, 4, 5, 6, 7, 8, 9, 10, 11, 12, 13, 14, 15, 10, 11, 12, 13, 14, 15])"

definition hex4 :: "string \<Rightarrow> nat option" where
  "hex4 s =
     (case map hex_val s of
        [Some a, Some b, Some c, Some d] \<Rightarrow> Some (((a * 16 + b) * 16 + c) * 16 + d)
      | _ \<Rightarrow> None)"

definition simple_escape :: "char \<Rightarrow> char option" where
  "simple_escape = map_of
     [(dq, dq), (bs, bs), (CHR ''/'', CHR ''/''), (CHR ''b'', CHR 0x08), (CHR ''f'', CHR 0x0C),
      (CHR ''n'', CHR 0x0A), (CHR ''r'', CHR 0x0D), (CHR ''t'', CHR 0x09)]"

definition is_control :: "char \<Rightarrow> bool" where
  "is_control c \<longleftrightarrow> (of_char c :: nat) < 0x20"

function json_string_chars :: "string \<Rightarrow> string \<Rightarrow> error + (string \<times> string)" where
  "json_string_chars acc [] = Inl SyntaxError"
| "json_string_chars acc (c # cs) =
     (if c = dq then Inr (acc, cs)
      else if c = bs then
        (case cs of
           [] \<Rightarrow> Inl SyntaxError
         | e # rest \<Rightarrow>
             (case simple_escape e of
                Some d \<Rightarrow> json_string_chars (acc @ [d]) (drop 1 cs)
              | None \<Rightarrow>
                  if e = CHR ''u'' then
                    (case hex4 (take 4 rest) of
                       Some v \<Rightarrow> json_string_chars (acc @ [char_of v]) (drop 5 cs)
                     | None \<Rightarrow> Inl SyntaxError)
                  else Inl SyntaxError))
      else if is_control c then Inl SyntaxError
      else json_string_chars (acc @ [c]) cs)"
  by pat_completeness auto
termination
  by (relation "measure (\<lambda>(acc, s). length s)") auto

definition json_ws :: "char \<Rightarrow> bool" where
  "json_ws c \<longleftrightarrow> c \<in> set [CHR 0x20, CHR 0x09, CHR 0x0A, CHR 0x0D]"

definition JSON_parse :: "string \<Rightarrow> error + string" where
  "JSON_parse text =
     (case dropWhile json_ws text of
        [] \<Rightarrow> Inl SyntaxError
      | c # cs \<Rightarrow>
          if c = dq then
            (case json_string_chars [] cs of
               Inl e \<Rightarrow> Inl e
             | Inr (v, rest) \<Rightarrow> if dropWhile json_ws rest = [] then Inr v else Inl SyntaxError)
          else Inl SyntaxError)"

definition decodeJsEscapedString :: "string \<Rightarrow> error + string" where
  "decodeJsEscapedString maybeEscaped =
     (let safe = replace_char dq [bs, dq] (replace_char bs [bs, bs] maybeEscaped)
      in JSON_parse ([dq] @ safe @ [dq]))"

text \<open>
  How the website writes a value, in the words of the specification: a line feed
  becomes backslash, n and a double quote becomes backslash, double quote.
\<close>

definition escape_like_source :: "string \<Rightarrow> string" where
  "escape_like_source s = replace_char dq [bs, dq] (replace_char LF [bs, CHR ''n''] s)"

section \<open>The extractor\<close>

definition typeToPath :: "string \<Rightarrow> string option" where
  "typeToPath type =
     (if type = ''smoke'' then Some ''smokes''
      else if type = ''molotov'' then Some ''molotovs''
      else if type = ''flashbang'' then Some ''flashbangs''
      else if type = ''he'' then Some ''hes''
      else None)"

record NadeSummary =
  nade_id :: string
  slug :: string
  type :: string
  team :: "string option"
  titleFrom :: "string option"
  titleTo :: "string option"

definition idNeedle :: string where
  "idNeedle = q @ ''id'' @ q @ '':'' @ q @ ''nade_''"

function find_starts :: "string \<Rightarrow> nat \<Rightarrow> nat list" where
  "find_starts html idx =
     (case indexOf html idNeedle idx of
        None \<Rightarrow> []
      | Some found \<Rightarrow> found # find_starts html (found + length idNeedle))"
  by pat_completeness auto
termination
proof (relation "measure (\<lambda>(html, idx). Suc (length html) - idx)")
  show "wf (measure (\<lambda>(html, idx). Suc (length html) - idx))"
    by simp
next
  fix html :: string and idx found :: nat
  assume found: "indexOf html idNeedle idx = Some found"
  have ix: "index_of needle s = Some k \<Longrightarrow> k + length needle \<le> length s"
    for needle s :: string and k
  proof (induction s arbitrary: k)
    case Nil
    then show ?case by (simp split: if_splits)
  next
    case (Cons c cs)
    then show ?case
      by (auto split: if_splits dest: prefix_length_le)
  qed
  from found obtain k where k: "index_of idNeedle (drop idx html) = Some k" "found = idx + k"
    by (auto simp: indexOf_def)
  from ix [OF k(1)] have "k + length idNeedle \<le> length html - idx"
    by simp
  moreover have "0 < length idNeedle"
    by (simp add: idNeedle_def q_def)
  ultimately have "Suc (length html) - (found + length idNeedle) < Suc (length html) - idx"
    using k(2) by linarith
  then show "((html, found + length idNeedle), (html, idx))
      \<in> measure (\<lambda>(html, idx). Suc (length html) - idx)"
    by simp
qed

declare find_starts.simps [simp del]

fun chunks_of :: "string \<Rightarrow> nat list \<Rightarrow> string list" where
  "chunks_of html [] = []"
| "chunks_of html [start] = [slice html start (length html)]"
| "chunks_of html (start # next # rest) = slice html start next # chunks_of html (next # rest)"

definition idRegex :: regex where
  "idRegex = ([Lit (q @ ''id'' @ q @ '':'' @ q)], [Lit ''nade_'', PlusNot [bs, dq]], [Lit q])"

definition slugRegex :: regex where
  "slugRegex =
     ([Lit (q @ ''id'' @ q @ '':'' @ q @ ''nade_''), PlusNot [bs, dq],
       Lit (q @ '','' @ q @ ''slug'' @ q @ '':'' @ q)],
      [PlusNot [bs, dq]], [Lit q])"

definition typeRegex :: regex where
  "typeRegex =
     ([Lit (q @ ''type'' @ q @ '':'' @ q)],
      [Alt [''smoke'', ''molotov'', ''flashbang'', ''he'']], [Lit q])"

definition teamRegex :: regex where
  "teamRegex = ([Lit (q @ ''team'' @ q @ '':'' @ q)], [Alt [''ct'', ''t'']], [Lit q])"

definition titleFromRegex :: regex where
  "titleFromRegex = ([Lit (q @ ''titleFrom'' @ q @ '':'' @ q)], [PlusNot [bs, dq]], [Lit q])"

definition titleToRegex :: regex where
  "titleToRegex = ([Lit (q @ ''titleTo'' @ q @ '':'' @ q)], [PlusNot [bs, dq]], [Lit q])"

text \<open>The body of the loop over the chunks: \<open>None\<close> is its \<open>continue\<close>.\<close>

definition parse_chunk :: "string \<Rightarrow> NadeSummary option" where
  "parse_chunk chunk =
     (case (match_group idRegex chunk, match_group slugRegex chunk, match_group typeRegex chunk) of
        (Some idMatch, Some slugMatch, Some typeMatch) \<Rightarrow>
          Some \<lparr>nade_id = idMatch, slug = slugMatch, type = typeMatch,
                team = match_group teamRegex chunk,
                titleFrom = match_group titleFromRegex chunk,
                titleTo = match_group titleToRegex chunk\<rparr>
      | _ \<Rightarrow> None)"

definition dedup_key :: "NadeSummary \<Rightarrow> string" where
  "dedup_key nade = type nade @ '':'' @ slug nade"

fun dedupe_from :: "string set \<Rightarrow> NadeSummary list \<Rightarrow> NadeSummary list" where
  "dedupe_from seen [] = []"
| "dedupe_from seen (nade # rest) =
     (let key = dedup_key nade in
      if key \<in> seen then dedupe_from seen rest
      else nade # dedupe_from (insert key seen) rest)"

definition dedupe :: "NadeSummary list \<Rightarrow> NadeSummary list" where
  "dedupe nades = dedupe_from {} nades"

definition extractNadesFromMapHtml :: "string \<Rightarrow> NadeSummary list" where
  "extractNadesFromMapHtml html =
     dedupe (List.map_filter parse_chunk (chunks_of html (find_starts html 0)))"

definition consoleRegex :: regex where
  "consoleRegex = ([Lit (q @ ''console'' @ q @ '':'' @ q)], [LazyAny], [Lit q])"

definition extractConsoleFromNadeHtml :: "string \<Rightarrow> error + string option" where
  "extractConsoleFromNadeHtml html =
     (case match_group consoleRegex html of
        None \<Rightarrow> Inr None
      | Some m \<Rightarrow>
          (case decodeJsEscapedString m of
             Inl e \<Rightarrow> Inl e
           | Inr s \<Rightarrow> Inr (Some s)))"

section \<open>The scheduler\<close>

text \<open>
  \<open>pLimit\<close> keeps a counter \<open>active\<close> and a queue of job thunks. A job is named by the
  position of its promise in the array given to \<open>Promise.all\<close>, and the function it
  wraps is given by the outcome it settles with. Besides the counter and the queue, the
  state records the jobs that were started and have not settled (\<open>running\<close>), the jobs
  that have settled and whose \<open>finally\<close> callback has not run yet (\<open>settling\<close>), the
  promises returned by the limiter (\<open>slots\<close>) and the first rejection seen by
  \<open>Promise.all\<close>.
\<close>

datatype 'a outcome = Fulfilled 'a | Rejected error

record 'a sched =
  active :: int
  queue :: "nat list"
  running :: "nat list"
  settling :: "nat list"
  slots :: "'a outcome option list"
  rejection :: "error option"

definition init_sched :: "'a sched" where
  "init_sched = \<lparr>active = 0, queue = [], running = [], settling = [], slots = [], rejection = None\<rparr>"

definition next_job :: "int \<Rightarrow> 'a sched \<Rightarrow> 'a sched" where
  "next_job limit st =
     (if active st \<ge> limit then st
      else case queue st of
        [] \<Rightarrow> st
      | job # rest \<Rightarrow> st\<lparr>queue := rest, active := active st + 1, running := running st @ [job]\<rparr>)"

text \<open>One call \<open>limiter(fn)\<close>: a new promise, the thunk pushed on the queue, \<open>next()\<close>.\<close>

definition submit :: "int \<Rightarrow> 'a sched \<Rightarrow> 'a sched" where
  "submit limit st =
     next_job limit (st\<lparr>queue := queue st @ [length (slots st)], slots := slots st @ [None]\<rparr>)"

definition submit_all :: "int \<Rightarrow> nat \<Rightarrow> 'a sched" where
  "submit_all limit n = fold (\<lambda>_. submit limit) [0 ..< n] init_sched"

text \<open>
  What happens afterwards, in any order: the function of a running job settles, which
  settles the job's promise (and \<open>Promise.all\<close> notes a first rejection); then the
  \<open>finally\<close> callback of that job runs, \<open>active--; next()\<close>. An event that cannot
  happen in a state gives \<open>None\<close>.
\<close>

datatype event = Settle nat | Finalize nat

fun step :: "int \<Rightarrow> 'a outcome list \<Rightarrow> event \<Rightarrow> 'a sched \<Rightarrow> 'a sched option" where
  "step limit outs (Settle j) st =
     (if j \<in> set (running st) \<and> j < length outs then
        Some (st\<lparr>running := remove1 j (running st),
                 settling := settling st @ [j],
                 slots := (slots st)[j := Some (outs ! j)],
                 rejection :=
                   (case rejection st of
                      Some e \<Rightarrow> Some e
                    | None \<Rightarrow> (case outs ! j of Rejected e \<Rightarrow> Some e | Fulfilled v \<Rightarrow> None))\<rparr>)
      else None)"
| "step limit outs (Finalize j) st =
     (if j \<in> set (settling st) then
        Some (next_job limit (st\<lparr>settling := remove1 j (settling st), active := active st - 1\<rparr>))
      else None)"

fun exec :: "int \<Rightarrow> 'a outcome list \<Rightarrow> event list \<Rightarrow> 'a sched \<Rightarrow> 'a sched option" where
  "exec limit outs [] st = Some st"
| "exec limit outs (ev # evs) st =
     (case step limit outs ev st of
        None \<Rightarrow> None
      | Some st' \<Rightarrow> exec limit outs evs st')"

text \<open>
  \<open>await Promise.all(promises)\<close>: \<open>None\<close> while it is pending, the first rejection once
  there is one, and else the values of the promises, in the order of the array, once
  all are fulfilled.
\<close>

definition fulfilled_value :: "'a outcome option \<Rightarrow> 'a option" where
  "fulfilled_value slot = (case slot of Some (Fulfilled v) \<Rightarrow> Some v | _ \<Rightarrow> None)"

definition all_result :: "'a sched \<Rightarrow> (error + 'a list) option" where
  "all_result st =
     (case rejection st of
        Some e \<Rightarrow> Some (Inl e)
      | None \<Rightarrow> map_option Inr (those (map fulfilled_value (slots st))))"

text \<open>All jobs have settled and all \<open>finally\<close> callbacks have run.\<close>

definition quiescent :: "'a sched \<Rightarrow> bool" where
  "quiescent st \<longleftrightarrow> queue st = [] \<and> running st = [] \<and> settling st = []"

section \<open>The run\<close>

definition is_unreserved :: "char \<Rightarrow> bool" where
  "is_unreserved c \<longleftrightarrow>
     c \<in> set (''ABCDEFGHIJKLMNOPQRSTUVWXYZabcdefghijklmnopqrstuvwxyz0123456789-_.!~*()'' @ [CHR 0x27])"

definition percent :: "nat \<Rightarrow> string" where
  "percent b = [CHR ''%'', ''0123456789ABCDEF'' ! (b div 16), ''0123456789ABCDEF'' ! (b mod 16)]"

text \<open>\<open>encodeURIComponent\<close>: the UTF-8 bytes of a code unit below 256, percent-encoded.\<close>

definition encode_char :: "char \<Rightarrow> string" where
  "encode_char c =
     (let n = (of_char c :: nat) in
      if is_unreserved c then [c]
      else if n < 128 then percent n
      else percent (192 + n div 64) @ percent (128 + n mod 64))"

definition encodeURIComponent :: "string \<Rightarrow> string" where
  "encodeURIComponent s = concat (map encode_char s)"

type_synonym fetcher = "string \<Rightarrow> error + string"

record NadeResult =
  nade :: NadeSummary
  console :: "string option"
  error :: "string option"
  url :: "string option"

text \<open>
  The function given to the limiter for one record, by the outcome it settles with.
  What \<open>fetchText\<close> answers for a URL is a parameter: \<open>Inl\<close> when it rejects. The
  counter \<open>done\<close> and the progress lines logged with it are left out.
\<close>

definition job :: "fetcher \<Rightarrow> string \<Rightarrow> string \<Rightarrow> NadeSummary \<Rightarrow> NadeResult outcome" where
  "job fetchText baseUrl mapSlug n =
     (case typeToPath (type n) of
        None \<Rightarrow>
          Fulfilled \<lparr>nade = n, console = None, error = Some (''Unknown type: '' @ type n),
                     url = None\<rparr>
      | Some typePath \<Rightarrow>
          (let nadeUrl = baseUrl @ ''/'' @ encodeURIComponent mapSlug @ ''/'' @ typePath @ ''/''
                           @ encodeURIComponent (slug n)
           in case fetchText nadeUrl of
                Inl e \<Rightarrow> Rejected e
              | Inr html \<Rightarrow>
                  (case extractConsoleFromNadeHtml html of
                     Inl e \<Rightarrow> Rejected e
                   | Inr consoleText \<Rightarrow>
                       Fulfilled \<lparr>nade = n, console = consoleText, error = None,
                                  url = Some nadeUrl\<rparr>)))"

function replace_spaces :: "string \<Rightarrow> string" where
  "replace_spaces [] = []"
| "replace_spaces (c # cs) =
     (if is_space c then CHR '' '' # replace_spaces (dropWhile is_space cs)
      else c # replace_spaces cs)"
  by pat_completeness auto
termination
  by (relation "measure length") (auto simp: le_imp_less_Suc length_dropWhile_le)

definition sanitizeComment :: "string option \<Rightarrow> string" where
  "sanitizeComment s = trim (replace_spaces (case s of None \<Rightarrow> [] | Some t \<Rightarrow> t))"

definition setposRegex :: regex where
  "setposRegex =
     ([], [LitCI ''setpos '', PlusNotCI ([CHR '';'', bs] @ ''r'' @ [bs] @ ''n''),
           LitCI '';setang '', PlusNotCI ([bs] @ ''r'' @ [bs] @ ''n'')], [])"

definition label :: "NadeResult \<Rightarrow> string" where
  "label r =
     (let titleFrom = sanitizeComment (titleFrom (nade r));
          titleTo = sanitizeComment (titleTo (nade r));
          team = (case team (nade r) of
                    None \<Rightarrow> ''ANY''
                  | Some t \<Rightarrow> if t \<noteq> [] then toUpperCase t else ''ANY'')
      in join '' | ''
           (filter (\<lambda>x. x \<noteq> [])
              [type (nade r), team,
               if titleFrom \<noteq> [] \<and> titleTo \<noteq> [] then titleFrom @ '' -> '' @ titleTo
               else slug (nade r)]))"

definition command_line :: "string \<Rightarrow> string" where
  "command_line c = (case match_whole setposRegex c of Some m \<Rightarrow> m | None \<Rightarrow> trim c)"

text \<open>The loop over the results, with the lines pushed so far and the counter \<open>missing\<close>.\<close>

fun render_loop :: "NadeResult list \<Rightarrow> string list \<Rightarrow> nat \<Rightarrow> string list \<times> nat" where
  "render_loop [] lines missing = (lines, missing)"
| "render_loop (r # rs) lines missing =
     (let lines1 = lines @ [''// '' @ label r];
          lines2 = (case url r of
                      None \<Rightarrow> lines1
                    | Some u \<Rightarrow> if u \<noteq> [] then lines1 @ [''// '' @ u] else lines1)
      in case console r of
           None \<Rightarrow> render_loop rs (lines2 @ [''// MISSING_CONSOLE'', []]) (missing + 1)
         | Some c \<Rightarrow>
             if c = [] then render_loop rs (lines2 @ [''// MISSING_CONSOLE'', []]) (missing + 1)
             else render_loop rs (lines2 @ [command_line c, []]) missing)"

fun decimal :: "nat \<Rightarrow> string" where
  "decimal n =
     (if n < 10 then [''0123456789'' ! n]
      else decimal (n div 10) @ [''0123456789'' ! (n mod 10)])"

declare decimal.simps [simp del]

text \<open>
  What a finished run leaves: the text written to the output file and the line
  \<open>Missing console: n\<close>, which is logged when the counter is not zero.
\<close>

record artifact =
  content :: string
  missing_log :: "string option"

definition render :: "string \<Rightarrow> string \<Rightarrow> NadeResult list \<Rightarrow> artifact" where
  "render baseUrl mapSlug results =
     (let header = [''// Generated from '' @ baseUrl @ ''/'' @ mapSlug,
                    ''// Total nades: '' @ decimal (length results), []];
          (lines, missing) = render_loop results header 0
      in \<lparr>content = join [LF] lines,
          missing_log = (if missing \<noteq> 0 then Some (''Missing console: '' @ decimal missing)
                         else None)\<rparr>)"

text \<open>The records that are scheduled: \<open>max ? allNades.slice(0, max) : allNades\<close>.\<close>

definition nades_of :: "nat option \<Rightarrow> NadeSummary list \<Rightarrow> NadeSummary list" where
  "nades_of max_arg allNades =
     (case max_arg of
        None \<Rightarrow> allNades
      | Some m \<Rightarrow> if m \<noteq> 0 then take m allNades else allNades)"

text \<open>
  \<open>main\<close>, from the values of \<open>baseUrl\<close>, \<open>mapSlug\<close>, \<open>limit\<close> and \<open>max\<close> on (\<open>max_arg\<close> is
  \<open>None\<close> for \<open>null\<close>), under the events that follow the submission of the jobs.
  \<open>None\<close>: the events are not a run of the scheduler, or \<open>Promise.all\<close> is still pending
  after them. \<open>Some (Inl e)\<close>: \<open>main\<close> rejects with \<open>e\<close> and nothing is written.
  \<open>Some (Inr out)\<close>: \<open>main\<close> finishes and has written \<open>out\<close>.
\<close>

definition main ::
  "fetcher \<Rightarrow> string \<Rightarrow> string \<Rightarrow> int \<Rightarrow> nat option \<Rightarrow> event list \<Rightarrow> (error + artifact) option" where
  "main fetchText baseUrl mapSlug limit max_arg evs =
     (let mapUrl = baseUrl @ ''/'' @ encodeURIComponent mapSlug in
      case fetchText mapUrl of
        Inl e \<Rightarrow> Some (Inl e)
      | Inr mapHtml \<Rightarrow>
          (let allNades = extractNadesFromMapHtml mapHtml;
               nades = nades_of max_arg allNades
           in if nades = [] then
                Some (Inl (NoNadesError (''Could not find any nades on '' @ mapUrl
                             @ ''. The site layout may have changed.'')))
              else
                (let outs = map (job fetchText baseUrl mapSlug) nades in
                 case exec limit outs evs (submit_all limit (length nades)) of
                   None \<Rightarrow> None
                 | Some st \<Rightarrow>
                     (case all_result st of
                        None \<Rightarrow> None
                      | Some (Inl e) \<Rightarrow> Some (Inl e)
                      | Some (Inr results) \<Rightarrow> Some (Inr (render baseUrl mapSlug results))))))"

section \<open>Example documents\<close>

text \<open>
  A listing with two records, a smoke with slug \<open>a\<close> for the team \<open>t\<close> and a flashbang
  with slug \<open>b\<close> and no team, and three ways the detail pages can answer: the page of
  \<open>a\<close> has a console value and the page of \<open>b\<close> has none; the page of \<open>b\<close> cannot be
  fetched; the page of \<open>b\<close> has a console value with a raw line feed in it.
\<close>

definition listing_example :: string where
  "listing_example =
     ''<script>'' @ q @ ''id'' @ q @ '':'' @ q @ ''nade_1'' @ q @ '','' @ q @ ''slug'' @ q @ '':''
     @ q @ ''a'' @ q @ '','' @ q @ ''type'' @ q @ '':'' @ q @ ''smoke'' @ q @ '','' @ q @ ''team''
     @ q @ '':'' @ q @ ''t'' @ q @ ''},{'' @ q @ ''id'' @ q @ '':'' @ q @ ''nade_2'' @ q @ '',''
     @ q @ ''slug'' @ q @ '':'' @ q @ ''b'' @ q @ '','' @ q @ ''type'' @ q @ '':'' @ q
     @ ''flashbang'' @ q @ ''}''"

definition console_page :: "string \<Rightarrow> string" where
  "console_page v = ''{'' @ q @ ''console'' @ q @ '':'' @ q @ v @ q @ ''}''"

definition fetch_example :: fetcher where
  "fetch_example u =
     (if u = ''B/m'' then Inr listing_example
      else if u = ''B/m/smokes/a'' then Inr (console_page ''setpos 1 2 3;setang 4 5 6'')
      else if u = ''B/m/flashbangs/b'' then Inr ''<html></html>''
      else Inl (FetchError u))"

definition fetch_failing :: fetcher where
  "fetch_failing u =
     (if u = ''B/m/flashbangs/b'' then Inl (FetchError ''HTTP 500'') else fetch_example u)"

definition fetch_malformed :: fetcher where
  "fetch_malformed u =
     (if u = ''B/m/flashbangs/b'' then Inr (console_page (''x'' @ [LF] @ ''y''))
      else fetch_example u)"

section \<open>Deduplication\<close>









section \<open>Unescaping\<close>

lemma replace_char_Cons:
  "replace_char c rep (x # xs) = (if x = c then rep else [x]) @ replace_char c rep xs"
  by (simp add: replace_char_def)

lemma replace_char_append:
  "replace_char c rep (xs @ ys) = replace_char c rep xs @ replace_char c rep ys"
  by (simp add: replace_char_def)

lemma replace_char_Nil: "replace_char c rep [] = []"
  by (simp add: replace_char_def)

lemma special_chars:
  "bs \<noteq> dq" "\<not> is_control bs" "\<not> is_control dq"
  "simple_escape bs = Some bs" "simple_escape dq = Some dq" "\<not> json_ws dq"
  by (simp_all add: bs_def dq_def is_control_def simple_escape_def json_ws_def)

lemma pre_escape_Cons:
  "replace_char dq [bs, dq] (replace_char bs [bs, bs] (c # s)) =
     (if c = bs then [bs, bs] else if c = dq then [bs, dq] else [c])
     @ replace_char dq [bs, dq] (replace_char bs [bs, bs] s)"
  using special_chars(1)
  by (simp add: replace_char_Cons replace_char_append replace_char_Nil)

lemma json_string_chars_pre_escaped:
  "json_string_chars acc (replace_char dq [bs, dq] (replace_char bs [bs, bs] s) @ dq # rest) =
     (if \<exists>c \<in> set s. is_control c then Inl SyntaxError else Inr (acc @ s, rest))"
proof (induction s arbitrary: acc)
  case Nil
  then show ?case by (simp add: replace_char_Nil)
next
  case (Cons c s)
  consider "c = bs" | "c = dq" | "c \<noteq> bs" "c \<noteq> dq"
    by blast
  then show ?case
  proof cases
    case 1
    then show ?thesis
      using special_chars by (simp add: pre_escape_Cons Cons.IH)
  next
    case 2
    then show ?thesis
      using special_chars by (simp add: pre_escape_Cons Cons.IH)
  next
    case 3
    then show ?thesis
      by (simp add: pre_escape_Cons Cons.IH)
  qed
qed

text \<open>
  Claim C10. On a text without a character below U+0020, \<open>decodeJsEscapedString\<close>
  returns the text as it is: the decoder undoes exactly the escaping of the backslashes
  and double quotes done before it, so a backslash followed by n stays these two
  characters. On a text with a character below U+0020 the decoder throws.
\<close>

theorem decodeJsEscapedString_identity:
  "((\<forall>c \<in> set s. \<not> is_control c) \<longrightarrow> decodeJsEscapedString s = Inr s)
   \<and> ((\<exists>c \<in> set s. is_control c) \<longrightarrow> decodeJsEscapedString s = Inl SyntaxError)"
  using json_string_chars_pre_escaped [of "[]" s "[]"] special_chars(6)
  by (simp add: decodeJsEscapedString_def JSON_parse_def)

theorem decodeJsEscapedString_identity_witness:
  "decodeJsEscapedString (''a'' @ [bs] @ ''nb'') = Inr (''a'' @ [bs] @ ''nb'')
   \<and> decodeJsEscapedString (''a'' @ [LF] @ ''b'') = Inl SyntaxError"
  using decodeJsEscapedString_identity [of "''a'' @ [bs] @ ''nb''"]
    decodeJsEscapedString_identity [of "''a'' @ [LF] @ ''b''"]
  by (simp add: is_control_def bs_def LF_def)

section \<open>Scheduling\<close>

text \<open>
  What holds in every state of the scheduler: the counter \<open>active\<close> counts the jobs
  that were started and whose \<open>finally\<close> callback has not run; it does not exceed the
  limit; a job is in one place at most; the promise of a job that has not settled is
  pending and the promise of a job that has settled holds the outcome of that job; a
  rejection noted by \<open>Promise.all\<close> is the rejection of a job, and is noted as soon as
  a job rejects. \<open>sched_inv\<close> adds that jobs wait only when the limit is reached.
\<close>

definition sched_base :: "int \<Rightarrow> 'a outcome list \<Rightarrow> 'a sched \<Rightarrow> bool" where
  "sched_base limit outs st \<longleftrightarrow>
     active st = int (length (running st) + length (settling st)) \<and>
     active st \<le> limit \<and>
     distinct (queue st @ running st @ settling st) \<and>
     (\<forall>j \<in> set (queue st @ running st @ settling st). j < length (slots st)) \<and>
     (\<forall>j < length (slots st).
        slots st ! j = (if j \<in> set (queue st @ running st) then None else Some (outs ! j))) \<and>
     (\<forall>e. rejection st = Some e \<longrightarrow> (\<exists>j < length outs. outs ! j = Rejected e)) \<and>
     (\<forall>j < length (slots st). \<forall>e. slots st ! j = Some (Rejected e) \<longrightarrow> rejection st \<noteq> None) \<and>
     length (slots st) \<le> length outs"

definition sched_inv :: "int \<Rightarrow> 'a outcome list \<Rightarrow> 'a sched \<Rightarrow> bool" where
  "sched_inv limit outs st \<longleftrightarrow>
     sched_base limit outs st \<and> (queue st \<noteq> [] \<longrightarrow> limit \<le> active st)"

lemma sched_inv_init: "0 \<le> limit \<Longrightarrow> sched_inv limit outs init_sched"
  by (simp add: sched_inv_def sched_base_def init_sched_def)

lemma next_job_inv:
  assumes "sched_base limit outs st"
    and "tl (queue st) \<noteq> [] \<longrightarrow> limit - 1 \<le> active st"
  shows "sched_inv limit outs (next_job limit st)"
proof (cases "limit \<le> active st")
  case True
  with assms show ?thesis
    by (simp add: sched_inv_def next_job_def)
next
  case False
  show ?thesis
  proof (cases "queue st")
    case Nil
    with False assms show ?thesis
      by (simp add: sched_inv_def next_job_def)
  next
    case (Cons job rest)
    have "sched_base limit outs
            (st\<lparr>queue := rest, active := active st + 1, running := running st @ [job]\<rparr>)"
      using assms(1) False Cons unfolding sched_base_def
      by (auto simp: nth_append)
    moreover have "rest \<noteq> [] \<longrightarrow> limit \<le> active st + 1"
      using assms(2) Cons by auto
    ultimately show ?thesis
      using False Cons by (simp add: sched_inv_def next_job_def)
  qed
qed

lemma submit_inv:
  assumes "sched_inv limit outs st" and "length (slots st) < length outs"
  shows "sched_inv limit outs (submit limit st)"
proof -
  let ?st1 = "st\<lparr>queue := queue st @ [length (slots st)], slots := slots st @ [None]\<rparr>"
  have "sched_base limit outs ?st1"
    using assms unfolding sched_inv_def sched_base_def
    by (auto simp: nth_append less_Suc_eq)
  moreover have "tl (queue ?st1) \<noteq> [] \<longrightarrow> limit - 1 \<le> active ?st1"
    using assms(1) by (cases "queue st") (auto simp: sched_inv_def)
  ultimately show ?thesis
    unfolding submit_def by (rule next_job_inv)
qed

lemma submit_length: "length (slots (submit limit st)) = Suc (length (slots st))"
  by (simp add: submit_def next_job_def split: list.splits)

lemma submit_all_Suc: "submit_all limit (Suc n) = submit limit (submit_all limit n)"
  by (simp add: submit_all_def)

lemma submit_all_length: "length (slots (submit_all limit n)) = n"
  by (induction n) (simp_all add: submit_all_Suc submit_length, simp add: submit_all_def init_sched_def)

lemma submit_all_inv:
  "0 \<le> limit \<Longrightarrow> n \<le> length outs \<Longrightarrow> sched_inv limit outs (submit_all limit n)"
proof (induction n)
  case 0
  then show ?case by (simp add: submit_all_def sched_inv_init)
next
  case (Suc n)
  then show ?case
    by (simp add: submit_all_Suc submit_inv submit_all_length)
qed


lemma length_remove1_Suc: "j \<in> set xs \<Longrightarrow> Suc (length (remove1 j xs)) = length xs"
  using length_pos_if_in_set [of j xs] by (simp add: length_remove1)

lemma settle_inv:
  assumes "sched_inv limit outs st" and "step limit outs (Settle j) st = Some st'"
  shows "sched_inv limit outs st'"
proof -
  from assms(2) have j: "j \<in> set (running st)" "j < length outs"
    by (auto split: if_splits)
  from assms(2) j have st': "st' = st\<lparr>running := remove1 j (running st),
      settling := settling st @ [j], slots := (slots st)[j := Some (outs ! j)],
      rejection := (case rejection st of Some e \<Rightarrow> Some e
                    | None \<Rightarrow> (case outs ! j of Rejected e \<Rightarrow> Some e | Fulfilled v \<Rightarrow> None))\<rparr>"
    by simp
  from assms(1) have b: "sched_base limit outs st" and g: "queue st \<noteq> [] \<longrightarrow> limit \<le> active st"
    by (simp_all add: sched_inv_def)
  from j(1) have len': "Suc (length (remove1 j (running st))) = length (running st)"
    by (rule length_remove1_Suc)
  from b have d: "distinct (queue st @ running st @ settling st)"
    by (simp add: sched_base_def)
  have 1: "active st' = int (length (running st') + length (settling st'))"
    using b len' by (simp add: st' sched_base_def)
  have 2: "active st' \<le> limit"
    using b by (simp add: st' sched_base_def)
  have 3: "distinct (queue st' @ running st' @ settling st')"
    using d j(1) by (auto simp: st')
  have 4: "\<forall>k \<in> set (queue st' @ running st' @ settling st'). k < length (slots st')"
    using b j(1) by (auto simp: st' sched_base_def dest: notin_set_remove1)
  have 5: "\<forall>k < length (slots st').
        slots st' ! k = (if k \<in> set (queue st' @ running st') then None else Some (outs ! k))"
  proof (intro allI impI)
    fix k assume k: "k < length (slots st')"
    show "slots st' ! k = (if k \<in> set (queue st' @ running st') then None else Some (outs ! k))"
    proof (cases "k = j")
      case True
      with d j(1) k show ?thesis
        by (auto simp: st')
    next
      case False
      with b k d show ?thesis
        by (auto simp: st' sched_base_def)
    qed
  qed
  have 6: "\<forall>e. rejection st' = Some e \<longrightarrow> (\<exists>k < length outs. outs ! k = Rejected e)"
    using b j(2) by (auto simp: st' sched_base_def split: option.splits outcome.splits)
  have 7: "\<forall>k < length (slots st'). \<forall>e. slots st' ! k = Some (Rejected e) \<longrightarrow> rejection st' \<noteq> None"
  proof (intro allI impI)
    fix k e assume k: "k < length (slots st')" "slots st' ! k = Some (Rejected e)"
    show "rejection st' \<noteq> None"
    proof (cases "k = j")
      case True
      with k show ?thesis
        by (auto simp: st' split: option.splits)
    next
      case False
      with b k have "rejection st \<noteq> None"
        by (auto simp: st' sched_base_def)
      then show ?thesis
        by (auto simp: st')
    qed
  qed
  have 8: "length (slots st') \<le> length outs"
    using b by (simp add: st' sched_base_def)
  have 9: "queue st' \<noteq> [] \<longrightarrow> limit \<le> active st'"
    using g by (simp add: st')
  from 1 2 3 4 5 6 7 8 9 show ?thesis
    unfolding sched_inv_def sched_base_def by blast
qed

lemma finalize_inv:
  assumes "sched_inv limit outs st" and "step limit outs (Finalize j) st = Some st'"
  shows "sched_inv limit outs st'"
proof -
  let ?st1 = "st\<lparr>settling := remove1 j (settling st), active := active st - 1\<rparr>"
  from assms(2) have j: "j \<in> set (settling st)" and st': "st' = next_job limit ?st1"
    by (auto split: if_splits)
  from assms(1) have b: "sched_base limit outs st" and g: "queue st \<noteq> [] \<longrightarrow> limit \<le> active st"
    by (simp_all add: sched_inv_def)
  from j have "Suc (length (remove1 j (settling st))) = length (settling st)"
    by (rule length_remove1_Suc)
  then have 1: "active ?st1 = int (length (running ?st1) + length (settling ?st1))"
    using b by (simp add: sched_base_def)
  have 3: "distinct (queue ?st1 @ running ?st1 @ settling ?st1)"
    using b by (auto simp: sched_base_def)
  have 4: "\<forall>k \<in> set (queue ?st1 @ running ?st1 @ settling ?st1). k < length (slots ?st1)"
    using b by (auto simp: sched_base_def dest: notin_set_remove1)
  have "sched_base limit outs ?st1"
    unfolding sched_base_def using 1 3 4 b
    by (simp add: sched_base_def)
  moreover have "tl (queue ?st1) \<noteq> [] \<longrightarrow> limit - 1 \<le> active ?st1"
    using g by (cases "queue st") auto
  ultimately show ?thesis
    unfolding st' by (rule next_job_inv)
qed

lemma step_inv:
  "sched_inv limit outs st \<Longrightarrow> step limit outs ev st = Some st' \<Longrightarrow> sched_inv limit outs st'"
  by (cases ev) (blast intro: settle_inv finalize_inv)+

lemma exec_inv:
  "sched_inv limit outs st \<Longrightarrow> exec limit outs evs st = Some st' \<Longrightarrow> sched_inv limit outs st'"
proof (induction evs arbitrary: st)
  case Nil
  then show ?case by simp
next
  case (Cons ev evs)
  then show ?case
    by (auto split: option.splits dest: step_inv)
qed

lemma step_length: "step limit outs ev st = Some st' \<Longrightarrow> length (slots st') = length (slots st)"
  by (cases ev) (auto simp: next_job_def split: if_splits list.splits)

lemma exec_length: "exec limit outs evs st = Some st' \<Longrightarrow> length (slots st') = length (slots st)"
proof (induction evs arbitrary: st)
  case Nil
  then show ?case by simp
next
  case (Cons ev evs)
  then show ?case
    by (auto split: option.splits dest: step_length)
qed

lemma reachable_inv:
  assumes "1 \<le> limit" and "n \<le> length outs"
    and "exec limit outs evs (submit_all limit n) = Some st"
  shows "sched_inv limit outs st" and "length (slots st) = n"
proof -
  from assms(1,2) have "sched_inv limit outs (submit_all limit n)"
    by (simp add: submit_all_inv)
  with assms(3) show "sched_inv limit outs st"
    by (blast intro: exec_inv)
  from assms(3) show "length (slots st) = n"
    by (simp add: exec_length submit_all_length)
qed


definition work_left :: "'a sched \<Rightarrow> nat" where
  "work_left st = 2 * (length (queue st) + length (running st)) + length (settling st)"

lemma work_left_next_job: "work_left (next_job limit st) = work_left st"
  by (simp add: next_job_def work_left_def split: list.splits)

lemma exec_append:
  "exec limit outs (evs @ evs') st =
     (case exec limit outs evs st of None \<Rightarrow> None | Some st1 \<Rightarrow> exec limit outs evs' st1)"
  by (induction evs arbitrary: st) (auto split: option.splits)

lemma some_event_enabled:
  assumes "sched_inv limit outs st" and "1 \<le> limit" and "\<not> quiescent st"
  shows "\<exists>ev st'. step limit outs ev st = Some st' \<and> work_left st' < work_left st"
proof -
  from assms(1) have b: "sched_base limit outs st" and g: "queue st \<noteq> [] \<longrightarrow> limit \<le> active st"
    by (simp_all add: sched_inv_def)
  show ?thesis
  proof (cases "running st")
    case (Cons j rest)
    with b have "j < length outs"
      by (auto simp: sched_base_def)
    with Cons have "step limit outs (Settle j) st \<noteq> None"
      by simp
    then obtain st' where st': "step limit outs (Settle j) st = Some st'"
      by blast
    with Cons have "work_left st' < work_left st"
      by (auto simp: work_left_def split: if_splits)
    with st' show ?thesis
      by blast
  next
    case Nil
    show ?thesis
    proof (cases "settling st")
      case (Cons j rest)
      then have st': "step limit outs (Finalize j) st =
          Some (next_job limit (st\<lparr>settling := remove1 j (settling st), active := active st - 1\<rparr>))"
        by simp
      have "work_left (next_job limit (st\<lparr>settling := remove1 j (settling st),
              active := active st - 1\<rparr>)) < work_left st"
        using Cons by (simp add: work_left_next_job) (simp add: work_left_def)
      with st' show ?thesis
        by blast
    next
      case Nil
      with \<open>running st = []\<close> b have "active st = 0"
        by (simp add: sched_base_def)
      with g assms(2) have "queue st = []"
        by auto
      with Nil \<open>running st = []\<close> assms(3) show ?thesis
        by (simp add: quiescent_def)
    qed
  qed
qed

lemma can_finish:
  assumes "1 \<le> limit"
  shows "sched_inv limit outs st \<Longrightarrow> \<exists>evs st'. exec limit outs evs st = Some st' \<and> quiescent st'"
proof (induction "work_left st" arbitrary: st rule: less_induct)
  case less
  show ?case
  proof (cases "quiescent st")
    case True
    then have "exec limit outs [] st = Some st \<and> quiescent st"
      by simp
    then show ?thesis
      by blast
  next
    case False
    from some_event_enabled [OF less.prems assms False]
    obtain ev st1 where st1: "step limit outs ev st = Some st1" "work_left st1 < work_left st"
      by blast
    from less.prems st1(1) have "sched_inv limit outs st1"
      by (rule step_inv)
    from less.hyps [OF st1(2) this]
    obtain evs st' where "exec limit outs evs st1 = Some st'" "quiescent st'"
      by blast
    with st1(1) have "exec limit outs (ev # evs) st = Some st' \<and> quiescent st'"
      by simp
    then show ?thesis
      by blast
  qed
qed

lemma fulfilled_value_Some: "fulfilled_value x = Some v \<longleftrightarrow> x = Some (Fulfilled v)"
  by (auto simp: fulfilled_value_def split: option.splits outcome.splits)

lemma resolved_in_order:
  assumes "sched_inv limit outs st" and "length (slots st) = length outs"
    and "all_result st = Some (Inr rs)"
  shows "outs = map Fulfilled rs"
proof -
  from assms(3) have th: "those (map fulfilled_value (slots st)) = Some rs"
    by (auto simp: all_result_def split: option.splits)
  have those_nth: "those xs = Some ys \<Longrightarrow> length ys = length xs \<and> (\<forall>i < length xs. xs ! i = Some (ys ! i))"
    for xs :: "'a option list" and ys
  proof (induction xs arbitrary: ys)
    case Nil
    then show ?case by simp
  next
    case (Cons x xs)
    then show ?case
      by (auto split: option.splits simp: nth_Cons')
  qed
  from those_nth [OF th] have len: "length rs = length outs"
    and val: "\<forall>i < length outs. fulfilled_value (slots st ! i) = Some (rs ! i)"
    using assms(2) by auto
  have "outs ! i = Fulfilled (rs ! i)" if "i < length outs" for i
  proof -
    from val that have "fulfilled_value (slots st ! i) = Some (rs ! i)"
      by blast
    then have "slots st ! i = Some (Fulfilled (rs ! i))"
      by (simp add: fulfilled_value_Some)
    moreover from assms(1,2) that
    have "slots st ! i = (if i \<in> set (queue st @ running st) then None else Some (outs ! i))"
      by (simp add: sched_inv_def sched_base_def)
    ultimately show ?thesis
      by (auto split: if_splits)
  qed
  with len show ?thesis
    by (simp add: list_eq_iff_nth_eq)
qed

lemma quiescent_result:
  assumes "sched_inv limit outs st" and "length (slots st) = length outs" and "quiescent st"
  shows "all_result st =
     (case rejection st of Some e \<Rightarrow> Some (Inl e)
      | None \<Rightarrow> Some (Inr (map (\<lambda>x. case x of Fulfilled v \<Rightarrow> v) outs)))"
    and "(\<exists>e. Rejected e \<in> set outs) \<longleftrightarrow> rejection st \<noteq> None"
proof -
  from assms have sl: "\<forall>i < length outs. slots st ! i = Some (outs ! i)"
    by (simp add: sched_inv_def sched_base_def quiescent_def)
  with assms(2) have slots: "slots st = map Some outs"
    by (simp add: list_eq_iff_nth_eq)
  from assms(1) have r1: "\<forall>e. rejection st = Some e \<longrightarrow> (\<exists>j < length outs. outs ! j = Rejected e)"
    and r2: "\<forall>j < length (slots st). \<forall>e. slots st ! j = Some (Rejected e) \<longrightarrow> rejection st \<noteq> None"
    by (simp_all add: sched_inv_def sched_base_def)
  show rej: "(\<exists>e. Rejected e \<in> set outs) \<longleftrightarrow> rejection st \<noteq> None"
  proof
    assume "\<exists>e. Rejected e \<in> set outs"
    then obtain e j where "j < length outs" "outs ! j = Rejected e"
      by (auto simp: in_set_conv_nth)
    with r2 assms(2) sl show "rejection st \<noteq> None"
      by auto
  next
    assume "rejection st \<noteq> None"
    with r1 show "\<exists>e. Rejected e \<in> set outs"
      by (metis nth_mem not_None_eq)
  qed
  have th: "those (map fulfilled_value (map Some xs)) = Some (map (\<lambda>x. case x of Fulfilled v \<Rightarrow> v) xs)"
    if "\<forall>e. Rejected e \<notin> set xs" for xs :: "'a outcome list"
    using that
  proof (induction xs)
    case Nil
    then show ?case by simp
  next
    case (Cons x xs)
    then show ?case
      by (cases x) (auto simp: fulfilled_value_def)
  qed
  show "all_result st =
     (case rejection st of Some e \<Rightarrow> Some (Inl e)
      | None \<Rightarrow> Some (Inr (map (\<lambda>x. case x of Fulfilled v \<Rightarrow> v) outs)))"
  proof (cases "rejection st")
    case None
    with rej have "\<forall>e. Rejected e \<notin> set outs"
      by blast
    from th [OF this] None show ?thesis
      by (simp add: all_result_def slots)
  next
    case (Some e)
    then show ?thesis
      by (simp add: all_result_def)
  qed
qed

lemma main_written:
  assumes "main fetchText baseUrl mapSlug limit max_arg evs = Some (Inr out)"
  shows "\<exists>mapHtml st results.
      fetchText (baseUrl @ ''/'' @ encodeURIComponent mapSlug) = Inr mapHtml
    \<and> exec limit (map (job fetchText baseUrl mapSlug)
          (nades_of max_arg (extractNadesFromMapHtml mapHtml))) evs
          (submit_all limit (length (nades_of max_arg (extractNadesFromMapHtml mapHtml)))) = Some st
    \<and> all_result st = Some (Inr results)
    \<and> out = render baseUrl mapSlug results"
  using assms
  by (auto simp: main_def Let_def split: sum.splits option.splits if_splits)

lemma job_nade: "job fetchText baseUrl mapSlug n = Fulfilled r \<Longrightarrow> nade r = n"
  by (auto simp: job_def Let_def split: option.splits sum.splits)

lemma main_results_order:
  assumes "1 \<le> limit" and "main fetchText baseUrl mapSlug limit max_arg evs = Some (Inr out)"
  shows "\<exists>mapHtml results.
      fetchText (baseUrl @ ''/'' @ encodeURIComponent mapSlug) = Inr mapHtml
    \<and> map (job fetchText baseUrl mapSlug) (nades_of max_arg (extractNadesFromMapHtml mapHtml))
        = map Fulfilled results
    \<and> map nade results = nades_of max_arg (extractNadesFromMapHtml mapHtml)
    \<and> out = render baseUrl mapSlug results"
proof -
  from main_written [OF assms(2)] obtain mapHtml st results where
    f: "fetchText (baseUrl @ ''/'' @ encodeURIComponent mapSlug) = Inr mapHtml"
    and e: "exec limit (map (job fetchText baseUrl mapSlug)
          (nades_of max_arg (extractNadesFromMapHtml mapHtml))) evs
          (submit_all limit (length (nades_of max_arg (extractNadesFromMapHtml mapHtml)))) = Some st"
    and a: "all_result st = Some (Inr results)"
    and r: "out = render baseUrl mapSlug results"
    by blast
  let ?nades = "nades_of max_arg (extractNadesFromMapHtml mapHtml)"
  let ?outs = "map (job fetchText baseUrl mapSlug) ?nades"
  from reachable_inv [OF assms(1) _ e]
  have "sched_inv limit ?outs st" "length (slots st) = length ?outs"
    by simp_all
  from resolved_in_order [OF this a] have o: "?outs = map Fulfilled results" .
  then have len: "length results = length ?nades"
    by (metis length_map)
  have "nade (results ! i) = ?nades ! i" if "i < length ?nades" for i
  proof -
    from o that len have "job fetchText baseUrl mapSlug (?nades ! i) = Fulfilled (results ! i)"
      by (metis nth_map)
    then show ?thesis
      by (rule job_nade)
  qed
  with len have "map nade results = ?nades"
    by (simp add: list_eq_iff_nth_eq)
  with f o r show ?thesis
    by blast
qed

text \<open>
  Claim C4. For every list of jobs submitted to a limiter with a limit of at least 1
  and every order in which the running jobs settle and their \<open>finally\<close> callbacks
  run: when \<open>Promise.all\<close> resolves, the value at position \<open>i\<close> of its result is the
  value the \<open>i\<close>-th submitted job was fulfilled with. Every run can be continued until
  all jobs have settled, and then, if no job was rejected, \<open>Promise.all\<close> has resolved
  with the values of all jobs. So the results \<open>main\<close> renders are, in order, the results
  for the scheduled records, which are the deduplicated records of the listing.
\<close>

theorem results_in_submission_order:
  assumes "1 \<le> limit"
    and "exec limit outs evs (submit_all limit (length outs)) = Some st"
  shows "(\<forall>rs. all_result st = Some (Inr rs) \<longrightarrow> outs = map Fulfilled rs)
    \<and> (\<exists>evs' st'. exec limit outs (evs @ evs') (submit_all limit (length outs)) = Some st'
          \<and> quiescent st'
          \<and> ((\<forall>e. Rejected e \<notin> set outs) \<longrightarrow>
                all_result st' = Some (Inr (map (\<lambda>x. case x of Fulfilled v \<Rightarrow> v) outs))))
    \<and> (\<forall>es out. main fetchText baseUrl mapSlug limit max_arg es = Some (Inr out) \<longrightarrow>
          (\<exists>mapHtml results.
              fetchText (baseUrl @ ''/'' @ encodeURIComponent mapSlug) = Inr mapHtml
            \<and> map nade results = nades_of max_arg (extractNadesFromMapHtml mapHtml)
            \<and> out = render baseUrl mapSlug results))"
proof -
  from reachable_inv [OF assms(1) _ assms(2)]
  have inv: "sched_inv limit outs st" and len: "length (slots st) = length outs"
    by simp_all
  have 1: "\<forall>rs. all_result st = Some (Inr rs) \<longrightarrow> outs = map Fulfilled rs"
    using resolved_in_order [OF inv len] by blast
  from can_finish [OF assms(1) inv] obtain evs' st' where
    fin: "exec limit outs evs' st = Some st'" "quiescent st'"
    by blast
  from fin(1) assms(2) have run: "exec limit outs (evs @ evs') (submit_all limit (length outs)) = Some st'"
    by (simp add: exec_append)
  from reachable_inv [OF assms(1) _ run]
  have inv': "sched_inv limit outs st'" and len': "length (slots st') = length outs"
    by simp_all
  have "all_result st' = Some (Inr (map (\<lambda>x. case x of Fulfilled v \<Rightarrow> v) outs))"
    if "\<forall>e. Rejected e \<notin> set outs"
    using quiescent_result [OF inv' len' fin(2)] that
    by (cases "rejection st'") auto
  with run fin(2) have 2: "\<exists>evs' st'. exec limit outs (evs @ evs') (submit_all limit (length outs)) = Some st'
          \<and> quiescent st'
          \<and> ((\<forall>e. Rejected e \<notin> set outs) \<longrightarrow>
                all_result st' = Some (Inr (map (\<lambda>x. case x of Fulfilled v \<Rightarrow> v) outs)))"
    by blast
  have 3: "\<forall>es out. main fetchText baseUrl mapSlug limit max_arg es = Some (Inr out) \<longrightarrow>
          (\<exists>mapHtml results.
              fetchText (baseUrl @ ''/'' @ encodeURIComponent mapSlug) = Inr mapHtml
            \<and> map nade results = nades_of max_arg (extractNadesFromMapHtml mapHtml)
            \<and> out = render baseUrl mapSlug results)"
    using main_results_order [OF assms(1)] by blast
  from 1 2 3 show ?thesis
    by blast
qed

text \<open>
  Claim C5. For every limit of at least 1, every list of submitted jobs and every
  order of events, in every state the scheduler reaches the number of running jobs is
  at most the limit; so is the counter \<open>active\<close>, which counts the running jobs and the
  settled jobs whose \<open>finally\<close> callback has not run. That callback can run for every
  settled job; it decrements the counter and, if a job is waiting in the queue, starts
  the first one at once, which increments the counter again.
\<close>

theorem concurrency_ceiling:
  assumes "1 \<le> limit" and "n \<le> length outs"
    and "exec limit outs evs (submit_all limit n) = Some st"
  shows "int (length (running st)) \<le> limit
    \<and> active st = int (length (running st) + length (settling st))
    \<and> active st \<le> limit
    \<and> (\<forall>j \<in> set (settling st). \<exists>st'. step limit outs (Finalize j) st = Some st' \<and>
          (case queue st of
             [] \<Rightarrow> active st' = active st - 1 \<and> running st' = running st \<and> queue st' = []
           | k # rest \<Rightarrow>
               active st' = active st \<and> running st' = running st @ [k] \<and> queue st' = rest))"
proof -
  from reachable_inv(1) [OF assms] have inv: "sched_inv limit outs st" .
  then have a: "active st = int (length (running st) + length (settling st))"
    and l: "active st \<le> limit"
    by (simp_all add: sched_inv_def sched_base_def)
  then have r: "int (length (running st)) \<le> limit"
    by simp
  have "\<exists>st'. step limit outs (Finalize j) st = Some st' \<and>
          (case queue st of
             [] \<Rightarrow> active st' = active st - 1 \<and> running st' = running st \<and> queue st' = []
           | k # rest \<Rightarrow>
               active st' = active st \<and> running st' = running st @ [k] \<and> queue st' = rest)"
    if "j \<in> set (settling st)" for j
    using that l by (simp add: next_job_def split: list.splits)
  with a l r show ?thesis
    by blast
qed


theorem results_in_submission_order_witness:
  "(1::int) \<le> 2
   \<and> exec 2 [Fulfilled (10::nat), Fulfilled 20, Fulfilled 30]
        [Settle 1, Finalize 1, Settle 2, Settle 0, Finalize 0, Finalize 2]
        (submit_all 2 (length [Fulfilled (10::nat), Fulfilled 20, Fulfilled 30]))
      = Some \<lparr>active = 0, queue = [], running = [], settling = [],
              slots = [Some (Fulfilled 10), Some (Fulfilled 20), Some (Fulfilled 30)],
              rejection = None\<rparr>
   \<and> all_result \<lparr>active = 0, queue = [], running = [], settling = [],
              slots = [Some (Fulfilled (10::nat)), Some (Fulfilled 20), Some (Fulfilled 30)],
              rejection = None\<rparr> = Some (Inr [10, 20, 30])
   \<and> [Fulfilled (10::nat), Fulfilled 20, Fulfilled 30] = map Fulfilled [10, 20, 30]
   \<and> main fetch_example ''B'' ''m'' 2 None [Settle 1, Settle 0]
      = Some (Inr \<lparr>content = join [LF]
           [''// Generated from B/m'', ''// Total nades: 2'', [],
            ''// smoke | T | a'', ''// B/m/smokes/a'', ''setpos 1 2 3;setang 4 5 6'', [],
            ''// flashbang | ANY | b'', ''// B/m/flashbangs/b'', ''// MISSING_CONSOLE'', []],
          missing_log = Some ''Missing console: 1''\<rparr>)
   \<and> (\<exists>results.
          map nade results =
            [\<lparr>nade_id = ''nade_1'', slug = ''a'', type = ''smoke'', team = Some ''t'',
               titleFrom = None, titleTo = None\<rparr>,
             \<lparr>nade_id = ''nade_2'', slug = ''b'', type = ''flashbang'', team = None,
               titleFrom = None, titleTo = None\<rparr>]
        \<and> \<lparr>content = join [LF]
           [''// Generated from B/m'', ''// Total nades: 2'', [],
            ''// smoke | T | a'', ''// B/m/smokes/a'', ''setpos 1 2 3;setang 4 5 6'', [],
            ''// flashbang | ANY | b'', ''// B/m/flashbangs/b'', ''// MISSING_CONSOLE'', []],
          missing_log = Some ''Missing console: 1''\<rparr> = render ''B'' ''m'' results)"
  (is "?h1 \<and> exec 2 ?outs ?evs ?init = Some ?st \<and> ?res \<and> ?ord
       \<and> main fetch_example ''B'' ''m'' 2 None ?es = Some (Inr ?out)
       \<and> (\<exists>results. map nade results = ?nades \<and> ?out = render ''B'' ''m'' results)")
proof -
  have h1: ?h1
    by simp
  have h2: "exec 2 ?outs ?evs ?init = Some ?st"
    by code_simp
  have res: ?res
    by code_simp
  note inst = results_in_submission_order [OF h1 h2, where fetchText = fetch_example
      and baseUrl = "''B''" and mapSlug = "''m''" and max_arg = None]
  from inst have "\<forall>rs. all_result ?st = Some (Inr rs) \<longrightarrow> ?outs = map Fulfilled rs"
    by (rule conjunct1)
  with res have ord: ?ord
    by blast
  have m: "main fetch_example ''B'' ''m'' 2 None ?es = Some (Inr ?out)"
    by code_simp
  from inst [THEN conjunct2, THEN conjunct2, rule_format, OF m]
  obtain mapHtml results where
    f: "fetch_example (''B'' @ ''/'' @ encodeURIComponent ''m'') = Inr mapHtml"
    and n: "map nade results = nades_of None (extractNadesFromMapHtml mapHtml)"
    and o: "?out = render ''B'' ''m'' results"
    by blast
  have "fetch_example (''B'' @ ''/'' @ encodeURIComponent ''m'') = Inr listing_example"
    by code_simp
  with f have "mapHtml = listing_example"
    by simp
  moreover have "nades_of None (extractNadesFromMapHtml listing_example) = ?nades"
    by code_simp
  ultimately have nn: "map nade results = ?nades"
    using n by simp
  from conjI [OF nn o]
  have ex: "\<exists>results. map nade results = ?nades \<and> ?out = render ''B'' ''m'' results"
    by (rule exI)
  from h1 h2 res ord m ex show ?thesis
    by (intro conjI)
qed

theorem concurrency_ceiling_witness:
  "(1::int) \<le> 2
   \<and> (3::nat) \<le> length [Fulfilled (10::nat), Fulfilled 20, Fulfilled 30]
   \<and> exec 2 [Fulfilled (10::nat), Fulfilled 20, Fulfilled 30] [Settle 1] (submit_all 2 3)
      = Some \<lparr>active = 2, queue = [2], running = [0], settling = [1],
              slots = [None, Some (Fulfilled 20), None], rejection = None\<rparr>
   \<and> int (length (running \<lparr>active = 2, queue = [2], running = [0], settling = [1],
              slots = [None, Some (Fulfilled (20::nat)), None], rejection = None\<rparr>)) \<le> 2"
  (is "?h1 \<and> ?h2 \<and> exec 2 ?outs ?evs ?init = Some ?st \<and> ?bound")
proof -
  have h1: ?h1 and h2: ?h2
    by simp_all
  have h3: "exec 2 ?outs ?evs ?init = Some ?st"
    by code_simp
  from concurrency_ceiling [OF h1 h2 h3] have ?bound
    by blast
  with h1 h2 h3 show ?thesis
    by blast
qed

section \<open>Failures of a job\<close>

lemma decode_cases:
  "decodeJsEscapedString s = (if \<exists>c \<in> set s. is_control c then Inl SyntaxError else Inr s)"
  using json_string_chars_pre_escaped [of "[]" s "[]"] special_chars(6)
  by (simp add: decodeJsEscapedString_def JSON_parse_def)

lemma rejected_job_aborts:
  assumes "1 \<le> limit"
    and "fetchText (baseUrl @ ''/'' @ encodeURIComponent mapSlug) = Inr mapHtml"
    and "n \<in> set (nades_of max_arg (extractNadesFromMapHtml mapHtml))"
    and "job fetchText baseUrl mapSlug n = Rejected e"
  shows "\<forall>evs out. main fetchText baseUrl mapSlug limit max_arg evs \<noteq> Some (Inr out)"
    and "\<exists>evs e'. main fetchText baseUrl mapSlug limit max_arg evs = Some (Inl e')"
proof -
  let ?nades = "nades_of max_arg (extractNadesFromMapHtml mapHtml)"
  let ?outs = "map (job fetchText baseUrl mapSlug) ?nades"
  from assms(3,4) have rej: "Rejected e \<in> set ?outs"
    by (metis image_eqI set_map)
  show "\<forall>evs out. main fetchText baseUrl mapSlug limit max_arg evs \<noteq> Some (Inr out)"
  proof (intro allI notI)
    fix evs out
    assume "main fetchText baseUrl mapSlug limit max_arg evs = Some (Inr out)"
    from main_results_order [OF assms(1) this] assms(2)
    obtain results where "?outs = map Fulfilled results"
      by auto
    with rej show False
      by auto
  qed
  from assms(1) have "sched_inv limit ?outs (submit_all limit (length ?outs))"
    by (simp add: submit_all_inv)
  from can_finish [OF assms(1) this] obtain evs st where
    run: "exec limit ?outs evs (submit_all limit (length ?outs)) = Some st" and q: "quiescent st"
    by blast
  from reachable_inv [OF assms(1) _ run]
  have inv: "sched_inv limit ?outs st" and len: "length (slots st) = length ?outs"
    by simp_all
  from quiescent_result(2) [OF inv len q] rej obtain e' where e': "rejection st = Some e'"
    by auto
  with quiescent_result(1) [OF inv len q] have "all_result st = Some (Inl e')"
    by simp
  moreover from assms(3) have "?nades \<noteq> []"
    by auto
  ultimately have "main fetchText baseUrl mapSlug limit max_arg evs = Some (Inl e')"
    using assms(2) run by (simp add: main_def Let_def)
  then show "\<exists>evs e'. main fetchText baseUrl mapSlug limit max_arg evs = Some (Inl e')"
    by blast
qed

text \<open>
  Claim C1, as the specification states it: a job whose detail page cannot be fetched
  leaves an error field on its result, and the run goes on to the aggregated results
  and the output. It fails: with a listing of two records and a detail page that
  answers HTTP 500, the job is rejected and \<open>main\<close> rejects with that error, also when
  both jobs have settled.
\<close>

theorem fetch_failure_aborts_example:
  "job fetch_failing ''B'' ''m''
     \<lparr>nade_id = ''nade_2'', slug = ''b'', type = ''flashbang'', team = None, titleFrom = None,
       titleTo = None\<rparr> = Rejected (FetchError ''HTTP 500'')
   \<and> main fetch_failing ''B'' ''m'' 6 None [Settle 0, Settle 1, Finalize 0, Finalize 1]
     = Some (Inl (FetchError ''HTTP 500''))"
  by code_simp

text \<open>
  Claim C1, amended. For every scheduled record of a known type whose detail page
  cannot be fetched, the job is rejected with the error of the fetch; no result holds
  it. Then \<open>main\<close> never writes an output, whatever the order of events, and there are
  runs in which \<open>main\<close> rejects.
\<close>

theorem fetch_failure_rejects_main:
  assumes "1 \<le> limit"
    and "fetchText (baseUrl @ ''/'' @ encodeURIComponent mapSlug) = Inr mapHtml"
    and "n \<in> set (nades_of max_arg (extractNadesFromMapHtml mapHtml))"
    and "typeToPath (type n) = Some typePath"
    and "fetchText (baseUrl @ ''/'' @ encodeURIComponent mapSlug @ ''/'' @ typePath @ ''/''
           @ encodeURIComponent (slug n)) = Inl e"
  shows "job fetchText baseUrl mapSlug n = Rejected e
    \<and> (\<forall>evs out. main fetchText baseUrl mapSlug limit max_arg evs \<noteq> Some (Inr out))
    \<and> (\<exists>evs e'. main fetchText baseUrl mapSlug limit max_arg evs = Some (Inl e'))"
proof -
  from assms(4,5) have j: "job fetchText baseUrl mapSlug n = Rejected e"
    by (simp add: job_def)
  from j rejected_job_aborts [OF assms(1-3) j] show ?thesis
    by blast
qed

theorem fetch_failure_rejects_main_witness:
  "(1::int) \<le> 6
   \<and> fetch_failing (''B'' @ ''/'' @ encodeURIComponent ''m'') = Inr listing_example
   \<and> \<lparr>nade_id = ''nade_2'', slug = ''b'', type = ''flashbang'', team = None, titleFrom = None,
       titleTo = None\<rparr> \<in> set (nades_of None (extractNadesFromMapHtml listing_example))
   \<and> typeToPath ''flashbang'' = Some ''flashbangs''
   \<and> fetch_failing (''B'' @ ''/'' @ encodeURIComponent ''m'' @ ''/'' @ ''flashbangs'' @ ''/''
        @ encodeURIComponent ''b'') = Inl (FetchError ''HTTP 500'')
   \<and> (\<forall>evs out. main fetch_failing ''B'' ''m'' 6 None evs \<noteq> Some (Inr out))
   \<and> (\<exists>evs e'. main fetch_failing ''B'' ''m'' 6 None evs = Some (Inl e'))"
  (is "?h1 \<and> ?h2 \<and> ?n \<in> ?nades \<and> ?h4 \<and> ?h5 \<and> ?c1 \<and> ?c2")
proof -
  have h1: ?h1
    by simp
  have h2: ?h2
    by code_simp
  have h3: "?n \<in> ?nades"
    by code_simp
  have h4: "typeToPath (type ?n) = Some ''flashbangs''"
    by code_simp
  have h5: "fetch_failing (''B'' @ ''/'' @ encodeURIComponent ''m'' @ ''/'' @ ''flashbangs'' @ ''/''
        @ encodeURIComponent (slug ?n)) = Inl (FetchError ''HTTP 500'')"
    by code_simp
  from fetch_failure_rejects_main [OF h1 h2 h3 h4 h5] have "?c1 \<and> ?c2"
    by blast
  moreover have ?h4 ?h5
    using h4 h5 by simp_all
  ultimately show ?thesis
    using h1 h2 h3 by blast
qed

text \<open>
  Claim C2, as the specification states it: a console value that cannot be decoded
  gives a record without console text, and the run goes on. It fails: with a detail
  page whose console value holds a raw line feed, \<open>extractConsoleFromNadeHtml\<close> throws
  and \<open>main\<close> rejects with the syntax error.
\<close>

theorem malformed_console_aborts_example:
  "extractConsoleFromNadeHtml (console_page (''x'' @ [LF] @ ''y'')) = Inl SyntaxError
   \<and> main fetch_malformed ''B'' ''m'' 6 None [Settle 0, Settle 1, Finalize 0, Finalize 1]
     = Some (Inl SyntaxError)"
  by code_simp

text \<open>
  Claim C2, amended. For every scheduled record of a known type whose detail page has
  a console value with a character below U+0020, \<open>extractConsoleFromNadeHtml\<close> throws
  the syntax error of the decoder, nothing catches it and the job is rejected with it.
  Then \<open>main\<close> never writes an output, whatever the order of events, and there are runs
  in which \<open>main\<close> rejects.
\<close>

theorem malformed_console_rejects_main:
  assumes "1 \<le> limit"
    and "fetchText (baseUrl @ ''/'' @ encodeURIComponent mapSlug) = Inr mapHtml"
    and "n \<in> set (nades_of max_arg (extractNadesFromMapHtml mapHtml))"
    and "typeToPath (type n) = Some typePath"
    and "fetchText (baseUrl @ ''/'' @ encodeURIComponent mapSlug @ ''/'' @ typePath @ ''/''
           @ encodeURIComponent (slug n)) = Inr html"
    and "match_group consoleRegex html = Some m"
    and "\<exists>c \<in> set m. is_control c"
  shows "extractConsoleFromNadeHtml html = Inl SyntaxError
    \<and> job fetchText baseUrl mapSlug n = Rejected SyntaxError
    \<and> (\<forall>evs out. main fetchText baseUrl mapSlug limit max_arg evs \<noteq> Some (Inr out))
    \<and> (\<exists>evs e'. main fetchText baseUrl mapSlug limit max_arg evs = Some (Inl e'))"
proof -
  from assms(6,7) have x: "extractConsoleFromNadeHtml html = Inl SyntaxError"
    by (simp add: extractConsoleFromNadeHtml_def decode_cases)
  with assms(4,5) have j: "job fetchText baseUrl mapSlug n = Rejected SyntaxError"
    by (simp add: job_def)
  from x j rejected_job_aborts [OF assms(1-3) j] show ?thesis
    by blast
qed

theorem malformed_console_rejects_main_witness:
  "(1::int) \<le> 6
   \<and> fetch_malformed (''B'' @ ''/'' @ encodeURIComponent ''m'') = Inr listing_example
   \<and> \<lparr>nade_id = ''nade_2'', slug = ''b'', type = ''flashbang'', team = None, titleFrom = None,
       titleTo = None\<rparr> \<in> set (nades_of None (extractNadesFromMapHtml listing_example))
   \<and> typeToPath ''flashbang'' = Some ''flashbangs''
   \<and> fetch_malformed (''B'' @ ''/'' @ encodeURIComponent ''m'' @ ''/'' @ ''flashbangs'' @ ''/''
        @ encodeURIComponent ''b'') = Inr (console_page (''x'' @ [LF] @ ''y''))
   \<and> match_group consoleRegex (console_page (''x'' @ [LF] @ ''y'')) = Some (''x'' @ [LF] @ ''y'')
   \<and> is_control LF
   \<and> (\<forall>evs out. main fetch_malformed ''B'' ''m'' 6 None evs \<noteq> Some (Inr out))
   \<and> (\<exists>evs e'. main fetch_malformed ''B'' ''m'' 6 None evs = Some (Inl e'))"
  (is "?h1 \<and> ?h2 \<and> ?n \<in> ?nades \<and> ?h4 \<and> ?h5 \<and> ?h6 \<and> ?h7 \<and> ?c1 \<and> ?c2")
proof -
  have h1: ?h1
    by simp
  have h2: ?h2
    by code_simp
  have h3: "?n \<in> ?nades"
    by code_simp
  have h4: "typeToPath (type ?n) = Some ''flashbangs''"
    by code_simp
  have h5: "fetch_malformed (''B'' @ ''/'' @ encodeURIComponent ''m'' @ ''/'' @ ''flashbangs'' @ ''/''
        @ encodeURIComponent (slug ?n)) = Inr (console_page (''x'' @ [LF] @ ''y''))"
    by code_simp
  have h6: ?h6
    by code_simp
  have h7: ?h7
    by code_simp
  then have h7': "\<exists>c \<in> set (''x'' @ [LF] @ ''y''). is_control c"
    by simp
  from malformed_console_rejects_main [OF h1 h2 h3 h4 h5 h6 h7'] have "?c1 \<and> ?c2"
    by blast
  moreover have ?h4 ?h5
    using h4 h5 by simp_all
  ultimately show ?thesis
    using h1 h2 h3 h6 h7 by blast
qed

text \<open>
  Claim C3 says that decoding the escaped form of a text gives the text back. For the
  text a, line feed, b the escaped form is a, backslash, n, b, and
  \<open>decodeJsEscapedString\<close> returns these four characters, not the three of the text:
  it doubles every backslash before it decodes, so no escape sequence of its input is
  ever decoded.
\<close>

theorem decode_keeps_escaped_newline:
  "escape_like_source (''a'' @ [LF] @ ''b'') = ''a'' @ [bs] @ ''nb''
   \<and> decodeJsEscapedString (escape_like_source (''a'' @ [LF] @ ''b'')) = Inr (''a'' @ [bs] @ ''nb'')
   \<and> ''a'' @ [bs] @ ''nb'' \<noteq> ''a'' @ [LF] @ ''b''"
  by code_simp

section \<open>Matching\<close>

text \<open>
  What the piece consumed by an item looks like (\<open>item_ok\<close>), and the first candidate
  of a sequence of items, which is the match the matcher reports (\<open>first_match\<close>).
\<close>

fun item_ok :: "item \<Rightarrow> string \<Rightarrow> bool" where
  "item_ok (Lit l) m = (m = l)"
| "item_ok (LitCI l) m = (map upper_char m = map upper_char l)"
| "item_ok (PlusNot ex) m = (m \<noteq> [] \<and> (\<forall>c \<in> set m. c \<notin> set ex))"
| "item_ok (PlusNotCI ex) m = (m \<noteq> [] \<and> (\<forall>c \<in> set m. upper_char c \<notin> upper_char ` set ex))"
| "item_ok LazyAny m = True"
| "item_ok (Alt ls) m = (m \<in> set ls)"

definition first_match :: "item list \<Rightarrow> string \<Rightarrow> (string list \<times> string) option" where
  "first_match its s = (case seq_matches its s of [] \<Rightarrow> None | m # _ \<Rightarrow> Some m)"

lemma splits_at_sound:
  "(m, r) \<in> set (splits_at ns s) \<Longrightarrow> \<exists>n \<in> set ns. m = take n s \<and> r = drop n s"
  by (auto simp: splits_at_def)

lemma take_takeWhile_ok:
  "n \<le> length (takeWhile P s) \<Longrightarrow> c \<in> set (take n s) \<Longrightarrow> P c"
proof -
  assume n: "n \<le> length (takeWhile P s)" and c: "c \<in> set (take n s)"
  have "take n (takeWhile P s @ dropWhile P s) = take n (takeWhile P s)"
    using n by (simp del: takeWhile_dropWhile_id)
  then have "take n s = take n (takeWhile P s)"
    by (simp only: takeWhile_dropWhile_id)
  then have "c \<in> set (takeWhile P s)"
    using c by (auto dest: in_set_takeD)
  then show "P c"
    by (rule set_takeWhileD [THEN conjunct2])
qed

lemma item_matches_sound:
  "(m, r) \<in> set (item_matches it s) \<Longrightarrow> s = m @ r \<and> item_ok it m"
proof (cases it)
  case (Lit l)
  assume "(m, r) \<in> set (item_matches it s)"
  with Lit show ?thesis
    by (auto simp: prefix_def split: if_splits)
next
  case (LitCI l)
  assume "(m, r) \<in> set (item_matches it s)"
  with LitCI show ?thesis
    by (auto split: if_splits)
next
  case (PlusNot ex)
  assume "(m, r) \<in> set (item_matches it s)"
  with PlusNot obtain n where n: "1 \<le> n" "n \<le> length (takeWhile (\<lambda>c. c \<notin> set ex) s)"
    "m = take n s" "r = drop n s"
    by (auto dest!: splits_at_sound)
  from n(2) have "n \<le> length s"
    using length_takeWhile_le [of "\<lambda>c. c \<notin> set ex" s] by linarith
  with n(1,3) have "m \<noteq> []"
    by auto
  moreover have "\<forall>c \<in> set m. c \<notin> set ex"
    using take_takeWhile_ok [OF n(2)] n(3) by blast
  ultimately show ?thesis
    using PlusNot n(3,4) by simp
next
  case (PlusNotCI ex)
  assume "(m, r) \<in> set (item_matches it s)"
  with PlusNotCI obtain n where n: "1 \<le> n"
    "n \<le> length (takeWhile (\<lambda>c. upper_char c \<notin> upper_char ` set ex) s)"
    "m = take n s" "r = drop n s"
    by (auto dest!: splits_at_sound)
  from n(2) have "n \<le> length s"
    using length_takeWhile_le [of "\<lambda>c. upper_char c \<notin> upper_char ` set ex" s] by linarith
  with n(1,3) have "m \<noteq> []"
    by auto
  moreover have "\<forall>c \<in> set m. upper_char c \<notin> upper_char ` set ex"
    using take_takeWhile_ok [OF n(2)] n(3) by blast
  ultimately show ?thesis
    using PlusNotCI n(3,4) by simp
next
  case LazyAny
  assume "(m, r) \<in> set (item_matches it s)"
  with LazyAny show ?thesis
    by (auto dest!: splits_at_sound)
next
  case (Alt ls)
  assume "(m, r) \<in> set (item_matches it s)"
  with Alt show ?thesis
    by (auto simp: prefix_def split: if_splits)
qed

lemma seq_matches_sound:
  "(ms, r) \<in> set (seq_matches its s) \<Longrightarrow> s = concat ms @ r \<and> list_all2 item_ok its ms"
proof (induction its arbitrary: s ms)
  case Nil
  then show ?case by simp
next
  case (Cons it its)
  from Cons.prems obtain m r1 ms' where
    m: "(m, r1) \<in> set (item_matches it s)" and ms': "(ms', r) \<in> set (seq_matches its r1)"
    and ms: "ms = m # ms'"
    by auto
  from item_matches_sound [OF m] Cons.IH [OF ms'] ms show ?case
    by simp
qed

lemma first_match_sound:
  "first_match its s = Some (ms, r) \<Longrightarrow> s = concat ms @ r \<and> list_all2 item_ok its ms"
  by (rule seq_matches_sound) (auto simp: first_match_def split: list.splits)

lemma match_here_first:
  "match_here (pre, grp, post) s =
     map_option (\<lambda>(ms, r). (concat (take (length pre) ms),
                            concat (take (length grp) (drop (length pre) ms)),
                            concat (drop (length pre + length grp) ms)))
       (first_match (pre @ grp @ post) s)"
  by (simp add: first_match_def split: list.splits)

text \<open>The leftmost position with a match is the one \<open>regex_exec\<close> takes.\<close>

lemma regex_exec_Some:
  "regex_exec re s = Some m \<Longrightarrow>
     \<exists>i \<le> length s. match_here re (drop i s) = Some m \<and> (\<forall>j < i. match_here re (drop j s) = None)"
proof (induction s)
  case Nil
  then show ?case by simp
next
  case (Cons c cs)
  show ?case
  proof (cases "match_here re (c # cs)")
    case (Some m')
    with Cons.prems have "match_here re (drop 0 (c # cs)) = Some m"
      by simp
    then show ?thesis
      by blast
  next
    case None
    with Cons.prems have "regex_exec re cs = Some m"
      by simp
    from Cons.IH [OF this] obtain i where i: "i \<le> length cs" "match_here re (drop i cs) = Some m"
      "\<forall>j < i. match_here re (drop j cs) = None"
      by blast
    have "\<forall>j < Suc i. match_here re (drop j (c # cs)) = None"
      using None i(3) by (auto simp: less_Suc_eq_0_disj)
    with i(1,2) have "Suc i \<le> length (c # cs) \<and> match_here re (drop (Suc i) (c # cs)) = Some m
        \<and> (\<forall>j < Suc i. match_here re (drop j (c # cs)) = None)"
      by simp
    then show ?thesis
      by blast
  qed
qed

lemma regex_exec_leftmost:
  "i \<le> length s \<Longrightarrow> match_here re (drop i s) = Some m \<Longrightarrow>
   \<forall>j < i. match_here re (drop j s) = None \<Longrightarrow> regex_exec re s = Some m"
proof (induction s arbitrary: i)
  case Nil
  then show ?case by simp
next
  case (Cons c cs)
  show ?case
  proof (cases i)
    case 0
    with Cons.prems show ?thesis by simp
  next
    case (Suc k)
    with Cons.prems have "match_here re (c # cs) = None"
      by (metis drop0 zero_less_Suc)
    moreover have "regex_exec re cs = Some m"
    proof (rule Cons.IH [of k])
      show "k \<le> length cs" using Cons.prems(1) Suc by simp
      show "match_here re (drop k cs) = Some m" using Cons.prems(2) Suc by simp
      show "\<forall>j < k. match_here re (drop j cs) = None"
        using Cons.prems(3) Suc by (metis Suc_less_eq drop_Suc_Cons)
    qed
    ultimately show ?thesis by simp
  qed
qed

lemma regex_exec_None:
  "regex_exec re s = None \<longleftrightarrow> (\<forall>i \<le> length s. match_here re (drop i s) = None)"
proof
  assume n: "regex_exec re s = None"
  show "\<forall>i \<le> length s. match_here re (drop i s) = None"
  proof (intro allI impI, rule ccontr)
    fix i assume i: "i \<le> length s" "match_here re (drop i s) \<noteq> None"
    define k where "k = (LEAST k. k \<le> length s \<and> match_here re (drop k s) \<noteq> None)"
    have "k \<le> length s \<and> match_here re (drop k s) \<noteq> None"
      unfolding k_def by (rule LeastI [of _ i]) (use i in simp)
    moreover have "\<forall>j < k. match_here re (drop j s) = None"
    proof (intro allI impI, rule ccontr)
      fix j assume "j < k" "match_here re (drop j s) \<noteq> None"
      moreover from this \<open>k \<le> length s \<and> _\<close> have "j \<le> length s \<and> match_here re (drop j s) \<noteq> None"
        by simp
      then have "k \<le> j"
        unfolding k_def by (rule Least_le)
      ultimately show False by simp
    qed
    ultimately obtain m where "regex_exec re s = Some m"
      using regex_exec_leftmost [of k s re] by auto
    with n show False by simp
  qed
next
  assume a: "\<forall>i \<le> length s. match_here re (drop i s) = None"
  show "regex_exec re s = None"
  proof (rule ccontr)
    assume "regex_exec re s \<noteq> None"
    then obtain m where "regex_exec re s = Some m"
      by auto
    from regex_exec_Some [OF this] a show False
      by auto
  qed
qed

lemma first_match_Nil: "first_match [] s = Some ([], s)"
  by (simp add: first_match_def)

lemma first_match_Lit:
  "first_match (Lit l # its) (l @ s) = map_option (\<lambda>(ms, r). (l # ms, r)) (first_match its s)"
  by (simp add: first_match_def split: list.splits)

lemma first_match_Lit_None: "\<not> prefix l s \<Longrightarrow> first_match (Lit l # its) s = None"
  by (simp add: first_match_def)


lemma first_match_greedy:
  assumes "x \<noteq> []" and "\<forall>c \<in> set x. P c" and "s = [] \<or> \<not> P (hd s)"
    and "first_match its s = Some (ms, r)"
    and "item_matches it (x @ s) = splits_at (rev [1 ..< Suc (length (takeWhile P (x @ s)))]) (x @ s)"
  shows "first_match (it # its) (x @ s) = Some (x # ms, r)"
proof -
  from assms(2,3) have tw: "takeWhile P (x @ s) = x"
    by (cases s) (auto simp: takeWhile_append2)
  from assms(1) obtain k where k: "length x = Suc k"
    by (cases x) auto
  have "rev [1 ..< Suc (length x)] = length x # rev [1 ..< length x]"
    using k by simp
  with assms(5) tw have "item_matches it (x @ s) = (x, s) # splits_at (rev [1 ..< length x]) (x @ s)"
    by (simp add: splits_at_def)
  with assms(4) show ?thesis
    by (auto simp: first_match_def split: list.splits)
qed

lemma first_match_PlusNot:
  assumes "x \<noteq> []" and "\<forall>c \<in> set x. c \<notin> set ex" and "s = [] \<or> hd s \<in> set ex"
    and "first_match its s = Some (ms, r)"
  shows "first_match (PlusNot ex # its) (x @ s) = Some (x # ms, r)"
  using assms by (intro first_match_greedy [where P = "\<lambda>c. c \<notin> set ex"]) auto


text \<open>Searching for a text that begins with a literal.\<close>

lemma prefix_short:
  "prefix l (xs @ ys) \<Longrightarrow> length l \<le> length xs \<Longrightarrow> prefix l xs"
proof -
  assume p: "prefix l (xs @ ys)" and n: "length l \<le> length xs"
  from p obtain zs where "xs @ ys = l @ zs"
    by (auto simp: prefix_def)
  then have "take (length l) (xs @ ys) = l"
    by simp
  with n have "take (length l) xs = l"
    by simp
  then show ?thesis
    by (metis take_is_prefix)
qed

lemma no_early_prefix:
  assumes "\<not> sublist l (head @ butlast l)" and "l \<noteq> []" and "j < length head"
  shows "\<not> prefix l (drop j (head @ l @ r))"
proof
  assume p: "prefix l (drop j (head @ l @ r))"
  have "head @ l @ r = (head @ butlast l) @ [last l] @ r"
    using assms(2) by simp
  then have "drop j (head @ l @ r) = drop j (head @ butlast l) @ [last l] @ r"
    using assms(3) by simp
  moreover have "length l \<le> length (drop j (head @ butlast l))"
    using assms(2,3) by (cases l rule: rev_cases) auto
  ultimately have "prefix l (drop j (head @ butlast l))"
    using p prefix_short by metis
  then have "sublist l (drop j (head @ butlast l))"
    by (rule prefix_imp_sublist)
  then have "sublist l (head @ butlast l)"
    by (metis sublist_drop sublist_order.order_trans)
  with assms(1) show False
    by simp
qed

lemma index_of_first:
  assumes "\<not> sublist l (head @ butlast l)" and "l \<noteq> []"
  shows "index_of l (head @ l @ r) = Some (length head)"
  using assms
proof (induction head)
  case Nil
  then show ?case
    by (cases l) auto
next
  case (Cons c head)
  from no_early_prefix [OF Cons.prems, of 0 r] have np: "\<not> prefix l (c # head @ l @ r)"
    by simp
  have "\<not> sublist l (head @ butlast l)"
    using Cons.prems(1) by (metis append_Cons sublist_Cons_right)
  from Cons.IH [OF this Cons.prems(2)] np show ?case
    by simp
qed

lemma index_of_None: "\<not> sublist l s \<Longrightarrow> index_of l s = None"
proof (induction s)
  case Nil
  then show ?case by auto
next
  case (Cons c cs)
  then have "\<not> prefix l (c # cs)" "\<not> sublist l cs"
    by (auto dest: prefix_imp_sublist simp: sublist_Cons_right)
  with Cons.IH show ?case
    by simp
qed

lemma match_here_Lit_None:
  "\<not> prefix l s \<Longrightarrow> match_here (Lit l # pre, grp, post) s = None"
  by (simp add: match_here_first first_match_Lit_None)

lemma regex_exec_absent:
  "\<not> sublist l s \<Longrightarrow> regex_exec (Lit l # pre, grp, post) s = None"
proof -
  assume a: "\<not> sublist l s"
  have "\<not> prefix l (drop i s)" for i
    using a by (metis prefix_imp_sublist sublist_drop sublist_order.order_trans)
  then show ?thesis
    by (simp add: regex_exec_None match_here_Lit_None)
qed

lemma regex_exec_first_key:
  assumes "\<not> sublist l (head @ butlast l)" and "l \<noteq> []"
    and "match_here (Lit l # pre, grp, post) (l @ r) = Some m"
  shows "regex_exec (Lit l # pre, grp, post) (head @ l @ r) = Some m"
proof (rule regex_exec_leftmost [of "length head"])
  show "length head \<le> length (head @ l @ r)"
    by simp
  show "match_here (Lit l # pre, grp, post) (drop (length head) (head @ l @ r)) = Some m"
    using assms(3) by simp
  show "\<forall>j < length head. match_here (Lit l # pre, grp, post) (drop j (head @ l @ r)) = None"
    using no_early_prefix [OF assms(1,2)] by (simp add: match_here_Lit_None)
qed

section \<open>Extraction\<close>

lemma match_here_exec: "match_here re s = Some m \<Longrightarrow> regex_exec re s = Some m"
  using regex_exec_leftmost [of 0 s re m] by simp

lemma capture_after_literal:
  assumes "x \<noteq> []" and "\<forall>c \<in> set x. c \<notin> set ex" and "c0 \<in> set ex"
  shows "match_here ([Lit a], [Lit b, PlusNot ex], [Lit (c0 # c)]) (a @ b @ x @ (c0 # c) @ tail)
    = Some (a, b @ x, c0 # c)"
proof -
  have "first_match [Lit (c0 # c)] ((c0 # c) @ tail) = Some ([c0 # c], tail)"
    by (simp only: first_match_Lit first_match_Nil) simp
  with assms have "first_match [PlusNot ex, Lit (c0 # c)] (x @ (c0 # c) @ tail)
      = Some ([x, c0 # c], tail)"
    by (intro first_match_PlusNot) auto
  then have "first_match [Lit a, Lit b, PlusNot ex, Lit (c0 # c)] (a @ b @ x @ (c0 # c) @ tail)
      = Some ([a, b, x, c0 # c], tail)"
    by (simp only: first_match_Lit) simp
  then show ?thesis
    by (simp add: match_here_first del: match_here.simps)
qed

lemma capture_after_class:
  assumes "x \<noteq> []" and "\<forall>c \<in> set x. c \<notin> set ex" and "b0 \<in> set ex"
    and "y \<noteq> []" and "\<forall>c \<in> set y. c \<notin> set ex" and "c0 \<in> set ex"
  shows "match_here ([Lit a, PlusNot ex, Lit (b0 # b)], [PlusNot ex], [Lit (c0 # c)])
      (a @ x @ (b0 # b) @ y @ (c0 # c) @ tail)
    = Some (a @ x @ b0 # b, y, c0 # c)"
proof -
  have "first_match [Lit (c0 # c)] ((c0 # c) @ tail) = Some ([c0 # c], tail)"
    by (simp only: first_match_Lit first_match_Nil) simp
  with assms have "first_match [PlusNot ex, Lit (c0 # c)] (y @ (c0 # c) @ tail)
      = Some ([y, c0 # c], tail)"
    by (intro first_match_PlusNot) auto
  then have "first_match [Lit (b0 # b), PlusNot ex, Lit (c0 # c)] ((b0 # b) @ y @ (c0 # c) @ tail)
      = Some ([b0 # b, y, c0 # c], tail)"
    by (simp only: first_match_Lit) simp
  with assms have "first_match [PlusNot ex, Lit (b0 # b), PlusNot ex, Lit (c0 # c)]
        (x @ (b0 # b) @ y @ (c0 # c) @ tail)
      = Some ([x, b0 # b, y, c0 # c], tail)"
    by (intro first_match_PlusNot) auto
  then have "first_match [Lit a, PlusNot ex, Lit (b0 # b), PlusNot ex, Lit (c0 # c)]
        (a @ x @ (b0 # b) @ y @ (c0 # c) @ tail)
      = Some ([a, x, b0 # b, y, c0 # c], tail)"
    by (simp only: first_match_Lit) simp
  then show ?thesis
    by (simp add: match_here_first del: match_here.simps)
qed

lemma capture_type:
  assumes "t \<in> set [''smoke'', ''molotov'', ''flashbang'', ''he'']"
  shows "match_here ([Lit a], [Alt [''smoke'', ''molotov'', ''flashbang'', ''he'']], [Lit q])
      (a @ t @ q @ tail) = Some (a, t, q)"
proof -
  have "first_match [Alt [''smoke'', ''molotov'', ''flashbang'', ''he''], Lit q] (t @ q @ tail)
      = Some ([t, q], tail)"
  proof -
    consider "t = ''smoke''" | "t = ''molotov''" | "t = ''flashbang''" | "t = ''he''"
      using assms by auto
    then show ?thesis
      by cases (simp_all add: first_match_def q_def)
  qed
  then have "first_match [Lit a, Alt [''smoke'', ''molotov'', ''flashbang'', ''he''], Lit q]
      (a @ t @ q @ tail) = Some ([a, t, q], tail)"
    by (simp only: first_match_Lit) simp
  then show ?thesis
    by (simp add: match_here_first del: match_here.simps)
qed


lemma find_starts_none: "\<not> sublist idNeedle (drop idx html) \<Longrightarrow> find_starts html idx = []"
  by (subst find_starts.simps) (simp add: indexOf_def index_of_None)

lemma find_starts_single:
  assumes "\<not> sublist idNeedle (before @ butlast idNeedle)" and "\<not> sublist idNeedle r"
  shows "find_starts (before @ idNeedle @ r) 0 = [length before]"
proof -
  have ne: "idNeedle \<noteq> []"
    by (simp add: idNeedle_def q_def)
  have "indexOf (before @ idNeedle @ r) idNeedle 0 = Some (length before)"
    using index_of_first [OF assms(1) ne, of r] by (simp add: indexOf_def)
  moreover have "find_starts (before @ idNeedle @ r) (length before + length idNeedle) = []"
    using assms(2) by (intro find_starts_none) simp
  ultimately show ?thesis
    by (subst find_starts.simps) simp
qed

lemma dedupe_from_subset: "set (dedupe_from seen xs) \<subseteq> set xs"
  by (induction xs arbitrary: seen) (auto simp: Let_def)

lemma extract_from_chunk:
  "n \<in> set (extractNadesFromMapHtml html) \<Longrightarrow>
     \<exists>chunk \<in> set (chunks_of html (find_starts html 0)). parse_chunk chunk = Some n"
proof -
  assume "n \<in> set (extractNadesFromMapHtml html)"
  then have "n \<in> set (List.map_filter parse_chunk (chunks_of html (find_starts html 0)))"
    using dedupe_from_subset by (auto simp: extractNadesFromMapHtml_def dedupe_def)
  then show ?thesis
    by (auto simp: map_filter_def)
qed

lemma match_group_absent:
  "\<not> sublist l s \<Longrightarrow> match_group (Lit l # pre, grp, post) s = None"
  by (simp add: match_group_def regex_exec_absent)

lemma well_formed_span:
  assumes x: "x \<noteq> []" "bs \<notin> set x" "dq \<notin> set x"
    and sl: "sl \<noteq> []" "bs \<notin> set sl" "dq \<notin> set sl"
    and t: "t \<in> set [''smoke'', ''molotov'', ''flashbang'', ''he'']"
    and span: "span = idNeedle @ x @ q @ '','' @ q @ ''slug'' @ q @ '':'' @ q @ sl @ q @ mid
                 @ q @ ''type'' @ q @ '':'' @ q @ t @ q @ rest"
    and first_type: "\<not> sublist (q @ ''type'' @ q @ '':'' @ q)
        (idNeedle @ x @ q @ '','' @ q @ ''slug'' @ q @ '':'' @ q @ sl @ q @ mid
           @ butlast (q @ ''type'' @ q @ '':'' @ q))"
  shows "parse_chunk span =
     Some \<lparr>nade_id = ''nade_'' @ x, slug = sl, type = t,
           team = match_group teamRegex span,
           titleFrom = match_group titleFromRegex span,
           titleTo = match_group titleToRegex span\<rparr>"
proof -
  have xs: "\<forall>c \<in> set x. c \<notin> set [bs, dq]" and sls: "\<forall>c \<in> set sl. c \<notin> set [bs, dq]"
    using x sl by auto
  let ?tail = "mid @ q @ ''type'' @ q @ '':'' @ q @ t @ q @ rest"
  have s1: "span = (q @ ''id'' @ q @ '':'' @ q) @ ''nade_'' @ x @ (bs # [dq])
      @ ('','' @ q @ ''slug'' @ q @ '':'' @ q @ sl @ q @ ?tail)"
    by (simp add: span idNeedle_def q_def)
  have "match_here idRegex span = Some (q @ ''id'' @ q @ '':'' @ q, ''nade_'' @ x, bs # [dq])"
    unfolding s1 idRegex_def q_def
    using capture_after_literal [OF x(1) xs, of bs "[bs, dq] @ ''id'' @ [bs, dq] @ '':'' @ [bs, dq]" "''nade_''" "[dq]"]
    by simp
  then have idm: "match_group idRegex span = Some (''nade_'' @ x)"
    by (simp add: match_group_def match_here_exec)
  have s2: "span = (q @ ''id'' @ q @ '':'' @ q @ ''nade_'') @ x
      @ (bs # (dq # '','' @ q @ ''slug'' @ q @ '':'' @ q)) @ sl @ (bs # [dq]) @ ?tail"
    by (simp add: span idNeedle_def q_def)
  have "match_here slugRegex span
      = Some ((q @ ''id'' @ q @ '':'' @ q @ ''nade_'') @ x @ bs # (dq # '','' @ q @ ''slug'' @ q @ '':'' @ q),
              sl, bs # [dq])"
    unfolding s2 slugRegex_def
    using capture_after_class [OF x(1) xs _ sl(1) sls, of bs bs
        "q @ ''id'' @ q @ '':'' @ q @ ''nade_''" "dq # '','' @ q @ ''slug'' @ q @ '':'' @ q" "[dq]" ?tail]
    by (simp add: q_def)
  then have slm: "match_group slugRegex span = Some sl"
    by (simp add: match_group_def match_here_exec)
  let ?key = "q @ ''type'' @ q @ '':'' @ q"
  let ?head = "idNeedle @ x @ q @ '','' @ q @ ''slug'' @ q @ '':'' @ q @ sl @ q @ mid"
  have s3: "span = ?head @ ?key @ (t @ q @ rest)"
    by (simp add: span)
  have kne: "?key \<noteq> []"
    by (simp add: q_def)
  have "match_here (Lit ?key # [], [Alt [''smoke'', ''molotov'', ''flashbang'', ''he'']], [Lit q])
      (?key @ t @ q @ rest) = Some (?key, t, q)"
    using capture_type [OF t, of ?key rest] by simp
  from regex_exec_first_key [OF _ kne this, of ?head] first_type
  have "regex_exec typeRegex span = Some (?key, t, q)"
    unfolding s3 typeRegex_def by simp
  then have tym: "match_group typeRegex span = Some t"
    by (simp add: match_group_def)
  from idm slm tym show ?thesis
    by (simp add: parse_chunk_def)
qed


text \<open>
  A document made of a text without an anchor and then of spans, each an anchor with a
  text in which no further anchor begins: the offsets the scan finds are the offsets
  of these spans (\<open>starts_of\<close>), and the chunks are the spans, each one ending where
  the next anchor begins.
\<close>

fun starts_of :: "nat \<Rightarrow> string list \<Rightarrow> nat list" where
  "starts_of b [] = []"
| "starts_of b (r # rs) = b # starts_of (b + length idNeedle + length r) rs"

lemma find_starts_spans:
  assumes "k \<le> length P" and "\<not> sublist idNeedle (drop k P @ butlast idNeedle)"
    and "\<forall>r \<in> set rs. \<not> sublist idNeedle (r @ butlast idNeedle)"
  shows "find_starts (P @ concat (map ((@) idNeedle) rs)) k = starts_of (length P) rs"
  using assms
proof (induction rs arbitrary: P k)
  case Nil
  have "sublist idNeedle (drop k P) \<Longrightarrow> sublist idNeedle (drop k P @ butlast idNeedle)"
    unfolding sublist_def by (metis append.assoc)
  with Nil.prems(2) have "\<not> sublist idNeedle (drop k P)"
    by blast
  then show ?case
    by (simp add: find_starts_none)
next
  case (Cons r rs)
  let ?S = "concat (map ((@) idNeedle) rs)"
  let ?D = "P @ concat (map ((@) idNeedle) (r # rs))"
  have ne: "idNeedle \<noteq> []"
    by (simp add: idNeedle_def q_def)
  have "drop k ?D = drop k P @ idNeedle @ (r @ ?S)"
    using Cons.prems(1) by simp
  with index_of_first [OF Cons.prems(2) ne, of "r @ ?S"]
  have "indexOf ?D idNeedle k = Some (k + length (drop k P))"
    by (simp add: indexOf_def)
  then have found: "indexOf ?D idNeedle k = Some (length P)"
    using Cons.prems(1) by simp
  have D: "?D = (P @ idNeedle @ r) @ ?S"
    by simp
  have "find_starts ((P @ idNeedle @ r) @ ?S) (length P + length idNeedle)
      = starts_of (length (P @ idNeedle @ r)) rs"
    using Cons.prems(3) by (intro Cons.IH) simp_all
  then have rest: "find_starts ?D (length P + length idNeedle)
      = starts_of (length P + length idNeedle + length r) rs"
    by (simp add: add.assoc)
  show ?case
    by (subst find_starts.simps) (simp only: found rest option.case starts_of.simps)
qed

lemma chunks_of_spans:
  "chunks_of (P @ concat (map ((@) idNeedle) rs)) (starts_of (length P) rs)
     = map ((@) idNeedle) rs"
proof (induction rs arbitrary: P)
  case Nil
  then show ?case by simp
next
  case (Cons r rs)
  show ?case
  proof (cases rs)
    case Nil
    then show ?thesis
      by (simp add: slice_def)
  next
    case (Cons r2 rs2)
    have "chunks_of ((P @ idNeedle @ r) @ concat (map ((@) idNeedle) rs))
        (starts_of (length (P @ idNeedle @ r)) rs) = map ((@) idNeedle) rs"
      by (rule Cons.IH)
    then show ?thesis
      using Cons by (simp add: slice_def add.assoc)
  qed
qed

lemma extract_spans:
  assumes "\<not> sublist idNeedle (before @ butlast idNeedle)"
    and "\<forall>r \<in> set rs. \<not> sublist idNeedle (r @ butlast idNeedle)"
  shows "extractNadesFromMapHtml (before @ concat (map ((@) idNeedle) rs))
    = dedupe (List.map_filter parse_chunk (map ((@) idNeedle) rs))"
proof -
  have "find_starts (before @ concat (map ((@) idNeedle) rs)) 0 = starts_of (length before) rs"
    using assms by (intro find_starts_spans) simp_all
  then show ?thesis
    by (simp add: extractNadesFromMapHtml_def chunks_of_spans)
qed

text \<open>
  Claim C9. A document in which the anchor \<open>idNeedle\<close> does not occur gives no
  records. In a document with several anchors, each record is parsed from the span
  between its anchor and the next one (the last span ending with the document), and
  from nothing else: the extracted records are the deduplicated records of these
  spans. A span in which one of the patterns for the identifier, the slug and the
  type finds nothing gives no record, and nothing is raised: every extracted record
  comes from a span in which the three were found. A document with one anchor, whose
  span has an identifier and a slug (non-empty, without backslash and double quote)
  and then, as its first type field, one of the four types, gives exactly one record,
  with that identifier, slug and type; its \<open>team\<close>, \<open>titleFrom\<close> and \<open>titleTo\<close> are
  \<open>None\<close> when the span does not contain the field.
\<close>

theorem extractor_robust:
  "(\<not> sublist idNeedle html \<longrightarrow> extractNadesFromMapHtml html = [])
   \<and> (match_group idRegex chunk = None \<or> match_group slugRegex chunk = None
        \<or> match_group typeRegex chunk = None \<longrightarrow> parse_chunk chunk = None)
   \<and> (\<forall>n \<in> set (extractNadesFromMapHtml html).
          \<exists>c \<in> set (chunks_of html (find_starts html 0)). parse_chunk c = Some n)
   \<and> (x \<noteq> [] \<and> bs \<notin> set x \<and> dq \<notin> set x \<and> sl \<noteq> [] \<and> bs \<notin> set sl \<and> dq \<notin> set sl
        \<and> t \<in> set [''smoke'', ''molotov'', ''flashbang'', ''he'']
        \<and> span = idNeedle @ x @ q @ '','' @ q @ ''slug'' @ q @ '':'' @ q @ sl @ q @ mid
                   @ q @ ''type'' @ q @ '':'' @ q @ t @ q @ rest
        \<and> \<not> sublist (q @ ''type'' @ q @ '':'' @ q)
              (idNeedle @ x @ q @ '','' @ q @ ''slug'' @ q @ '':'' @ q @ sl @ q @ mid
                 @ butlast (q @ ''type'' @ q @ '':'' @ q))
        \<and> \<not> sublist idNeedle (before @ butlast idNeedle)
        \<and> \<not> sublist idNeedle (drop (length idNeedle) span)
      \<longrightarrow> (\<exists>n. extractNadesFromMapHtml (before @ span) = [n]
             \<and> nade_id n = ''nade_'' @ x \<and> slug n = sl \<and> type n = t
             \<and> (\<not> sublist (q @ ''team'' @ q @ '':'' @ q) span \<longrightarrow> team n = None)
             \<and> (\<not> sublist (q @ ''titleFrom'' @ q @ '':'' @ q) span \<longrightarrow> titleFrom n = None)
             \<and> (\<not> sublist (q @ ''titleTo'' @ q @ '':'' @ q) span \<longrightarrow> titleTo n = None)))
   \<and> (\<not> sublist idNeedle (before @ butlast idNeedle)
        \<and> (\<forall>r \<in> set rs. \<not> sublist idNeedle (r @ butlast idNeedle))
      \<longrightarrow> extractNadesFromMapHtml (before @ concat (map ((@) idNeedle) rs))
            = dedupe (List.map_filter parse_chunk (map ((@) idNeedle) rs)))"
proof -
  have 5: "\<not> sublist idNeedle (before @ butlast idNeedle)
        \<and> (\<forall>r \<in> set rs. \<not> sublist idNeedle (r @ butlast idNeedle))
      \<longrightarrow> extractNadesFromMapHtml (before @ concat (map ((@) idNeedle) rs))
            = dedupe (List.map_filter parse_chunk (map ((@) idNeedle) rs))"
    using extract_spans by blast
  have 1: "\<not> sublist idNeedle html \<longrightarrow> extractNadesFromMapHtml html = []"
    using find_starts_none [of 0 html]
    by (simp add: extractNadesFromMapHtml_def dedupe_def map_filter_def)
  have 2: "match_group idRegex chunk = None \<or> match_group slugRegex chunk = None
        \<or> match_group typeRegex chunk = None \<longrightarrow> parse_chunk chunk = None"
    by (auto simp: parse_chunk_def split: option.splits)
  have 3: "\<forall>n \<in> set (extractNadesFromMapHtml html).
          \<exists>c \<in> set (chunks_of html (find_starts html 0)). parse_chunk c = Some n"
    using extract_from_chunk by blast
  have 4: "\<exists>n. extractNadesFromMapHtml (before @ span) = [n]
             \<and> nade_id n = ''nade_'' @ x \<and> slug n = sl \<and> type n = t
             \<and> (\<not> sublist (q @ ''team'' @ q @ '':'' @ q) span \<longrightarrow> team n = None)
             \<and> (\<not> sublist (q @ ''titleFrom'' @ q @ '':'' @ q) span \<longrightarrow> titleFrom n = None)
             \<and> (\<not> sublist (q @ ''titleTo'' @ q @ '':'' @ q) span \<longrightarrow> titleTo n = None)"
    if x: "x \<noteq> []" "bs \<notin> set x" "dq \<notin> set x"
      and sl: "sl \<noteq> []" "bs \<notin> set sl" "dq \<notin> set sl"
      and t: "t \<in> set [''smoke'', ''molotov'', ''flashbang'', ''he'']"
      and span: "span = idNeedle @ x @ q @ '','' @ q @ ''slug'' @ q @ '':'' @ q @ sl @ q @ mid
                   @ q @ ''type'' @ q @ '':'' @ q @ t @ q @ rest"
      and first_type: "\<not> sublist (q @ ''type'' @ q @ '':'' @ q)
              (idNeedle @ x @ q @ '','' @ q @ ''slug'' @ q @ '':'' @ q @ sl @ q @ mid
                 @ butlast (q @ ''type'' @ q @ '':'' @ q))"
      and one: "\<not> sublist idNeedle (before @ butlast idNeedle)"
        "\<not> sublist idNeedle (drop (length idNeedle) span)"
  proof -
    let ?n = "\<lparr>nade_id = ''nade_'' @ x, slug = sl, type = t,
           team = match_group teamRegex span,
           titleFrom = match_group titleFromRegex span,
           titleTo = match_group titleToRegex span\<rparr>"
    from well_formed_span [OF x sl t span first_type] have p: "parse_chunk span = Some ?n" .
    obtain r where r: "span = idNeedle @ r"
      using span by simp
    with one(2) have "\<not> sublist idNeedle r"
      by simp
    from find_starts_single [OF one(1) this]
    have "find_starts (before @ span) 0 = [length before]"
      by (simp add: r)
    then have "chunks_of (before @ span) (find_starts (before @ span) 0) = [span]"
      by (simp add: slice_def)
    with p have "extractNadesFromMapHtml (before @ span) = [?n]"
      by (simp add: extractNadesFromMapHtml_def map_filter_def dedupe_def)
    moreover have "\<not> sublist (q @ ''team'' @ q @ '':'' @ q) span \<longrightarrow> team ?n = None"
      by (simp add: teamRegex_def match_group_absent)
    moreover have "\<not> sublist (q @ ''titleFrom'' @ q @ '':'' @ q) span \<longrightarrow> titleFrom ?n = None"
      by (simp add: titleFromRegex_def match_group_absent)
    moreover have "\<not> sublist (q @ ''titleTo'' @ q @ '':'' @ q) span \<longrightarrow> titleTo ?n = None"
      by (simp add: titleToRegex_def match_group_absent)
    ultimately show ?thesis
      by simp
  qed
  from 1 2 3 4 5 show ?thesis
    by blast
qed

text \<open>
  A document without an anchor; a span without a type; a document with one record; and
  a document with two anchors, where the first span has no type and the second has
  one: the first record is dropped and does not take the type of the second.
\<close>

theorem extractor_robust_witness:
  "\<not> sublist idNeedle ''<html></html>''
   \<and> extractNadesFromMapHtml ''<html></html>'' = []
   \<and> match_group typeRegex (idNeedle @ ''1'' @ q @ '','' @ q @ ''slug'' @ q @ '':'' @ q @ ''a'') = None
   \<and> parse_chunk (idNeedle @ ''1'' @ q @ '','' @ q @ ''slug'' @ q @ '':'' @ q @ ''a'') = None
   \<and> \<not> sublist (q @ ''type'' @ q @ '':'' @ q)
        (idNeedle @ ''1'' @ q @ '','' @ q @ ''slug'' @ q @ '':'' @ q @ ''a'' @ q @ '',''
           @ butlast (q @ ''type'' @ q @ '':'' @ q))
   \<and> \<not> sublist idNeedle (''<p>'' @ butlast idNeedle)
   \<and> \<not> sublist idNeedle (drop (length idNeedle)
        (idNeedle @ ''1'' @ q @ '','' @ q @ ''slug'' @ q @ '':'' @ q @ ''a'' @ q @ '',''
           @ q @ ''type'' @ q @ '':'' @ q @ ''he'' @ q @ ''}''))
   \<and> \<not> sublist (q @ ''team'' @ q @ '':'' @ q)
        (idNeedle @ ''1'' @ q @ '','' @ q @ ''slug'' @ q @ '':'' @ q @ ''a'' @ q @ '',''
           @ q @ ''type'' @ q @ '':'' @ q @ ''he'' @ q @ ''}'')
   \<and> (\<exists>n. extractNadesFromMapHtml (''<p>'' @ idNeedle @ ''1'' @ q @ '','' @ q @ ''slug'' @ q
              @ '':'' @ q @ ''a'' @ q @ '','' @ q @ ''type'' @ q @ '':'' @ q @ ''he'' @ q @ ''}'')
            = [n]
          \<and> nade_id n = ''nade_1'' \<and> slug n = ''a'' \<and> type n = ''he'' \<and> team n = None)
   \<and> \<not> sublist idNeedle
        ((''1'' @ q @ '','' @ q @ ''slug'' @ q @ '':'' @ q @ ''a'' @ q @ ''},{'') @ butlast idNeedle)
   \<and> \<not> sublist idNeedle
        ((''2'' @ q @ '','' @ q @ ''slug'' @ q @ '':'' @ q @ ''b'' @ q @ '','' @ q @ ''type'' @ q
          @ '':'' @ q @ ''he'' @ q @ ''}'') @ butlast idNeedle)
   \<and> extractNadesFromMapHtml
        (''<p>'' @ idNeedle @ (''1'' @ q @ '','' @ q @ ''slug'' @ q @ '':'' @ q @ ''a'' @ q @ ''},{'')
           @ idNeedle @ (''2'' @ q @ '','' @ q @ ''slug'' @ q @ '':'' @ q @ ''b'' @ q @ '','' @ q
              @ ''type'' @ q @ '':'' @ q @ ''he'' @ q @ ''}''))
      = [\<lparr>nade_id = ''nade_2'', slug = ''b'', type = ''he'', team = None, titleFrom = None,
           titleTo = None\<rparr>]"
  (is "?a1 \<and> ?a2 \<and> ?b1 \<and> ?b2 \<and> ?c1 \<and> ?c2 \<and> ?c3 \<and> ?c4 \<and> ?c5
       \<and> \<not> sublist idNeedle (?r1 @ butlast idNeedle)
       \<and> \<not> sublist idNeedle (?r2 @ butlast idNeedle) \<and> ?d3")
proof -
  let ?span = "idNeedle @ ''1'' @ q @ '','' @ q @ ''slug'' @ q @ '':'' @ q @ ''a'' @ q @ '',''
           @ q @ ''type'' @ q @ '':'' @ q @ ''he'' @ q @ ''}''"
  let ?chunk = "idNeedle @ ''1'' @ q @ '','' @ q @ ''slug'' @ q @ '':'' @ q @ ''a''"
  note inst = extractor_robust [where html = "''<html></html>''" and chunk = "?chunk"
      and x = "''1''" and sl = "''a''" and t = "''he''" and mid = "'',''" and rest = "''}''"
      and before = "''<p>''" and span = "?span" and rs = "[?r1, ?r2]"]
  note i1 = inst [THEN conjunct1]
  note i2 = inst [THEN conjunct2, THEN conjunct1]
  note i4 = inst [THEN conjunct2, THEN conjunct2, THEN conjunct2, THEN conjunct1]
  note i5 = inst [THEN conjunct2, THEN conjunct2, THEN conjunct2, THEN conjunct2]
  have a1: ?a1 and b1: ?b1 and c1: ?c1 and c2: ?c2 and c3: ?c3 and c4: ?c4
    by code_simp+
  have h: "bs \<notin> set ''1'' \<and> dq \<notin> set ''1'' \<and> bs \<notin> set ''a'' \<and> dq \<notin> set ''a''"
    by code_simp
  from i1 a1 have a2: ?a2
    by blast
  from i2 b1 have b2: ?b2
    by blast
  from i4 h c1 c2 c3 c4 have c5: ?c5
    by auto
  have d1: "\<not> sublist idNeedle (?r1 @ butlast idNeedle)"
    and d2: "\<not> sublist idNeedle (?r2 @ butlast idNeedle)"
    by code_simp+
  from i5 c2 d1 d2
  have "extractNadesFromMapHtml (''<p>'' @ concat (map ((@) idNeedle) [?r1, ?r2]))
      = dedupe (List.map_filter parse_chunk (map ((@) idNeedle) [?r1, ?r2]))"
    by simp
  moreover have "dedupe (List.map_filter parse_chunk (map ((@) idNeedle) [?r1, ?r2]))
      = [\<lparr>nade_id = ''nade_2'', slug = ''b'', type = ''he'', team = None, titleFrom = None,
           titleTo = None\<rparr>]"
    by code_simp
  ultimately have d3: ?d3
    by simp
  from a1 a2 b1 b2 c1 c2 c3 c4 c5 d1 d2 d3 show ?thesis
    by (intro conjI)
qed

section \<open>The command line\<close>





























text \<open>
  Two values of the pattern as written: the match ends before the letter n of the next
  command, and it runs over a line feed.
\<close>

lemma pattern_as_written_examples:
  "command_line ''setpos 1 2 3;setang 4 5 6;noclip'' = ''setpos 1 2 3;setang 4 5 6;''"
  "command_line (''setpos 1 2 3;setang 4 5 6'' @ [LF] @ ''say hi'')
     = ''setpos 1 2 3;setang 4 5 6'' @ [LF] @ ''say hi''"
  by code_simp+




section \<open>Rendering\<close>

text \<open>
  The block of one result, in the words of the specification and with what the
  program adds to them: a line with the label, which is the type, the team in upper
  case or \<open>ANY\<close>, and the two titles, each with its white space normalised, joined by an
  arrow when neither is empty after that, and else the slug; a line with the URL if
  there is one; then the marker for a missing console text, or the command line; then
  an empty line. \<open>console_missing\<close>: the console text is absent or empty.
\<close>

definition label_spec :: "NadeResult \<Rightarrow> string" where
  "label_spec r =
     type (nade r) @ '' | ''
     @ (case team (nade r) of None \<Rightarrow> ''ANY'' | Some t \<Rightarrow> toUpperCase t) @ '' | ''
     @ (if sanitizeComment (titleFrom (nade r)) \<noteq> [] \<and> sanitizeComment (titleTo (nade r)) \<noteq> []
        then sanitizeComment (titleFrom (nade r)) @ '' -> '' @ sanitizeComment (titleTo (nade r))
        else slug (nade r))"

definition console_missing :: "NadeResult \<Rightarrow> bool" where
  "console_missing r \<longleftrightarrow> console r = None \<or> console r = Some []"

definition record_block :: "NadeResult \<Rightarrow> string list" where
  "record_block r =
     [''// '' @ label_spec r]
     @ (case url r of None \<Rightarrow> [] | Some u \<Rightarrow> if u \<noteq> [] then [''// '' @ u] else [])
     @ (if console_missing r then [''// MISSING_CONSOLE'', []]
        else [command_line (case console r of Some c \<Rightarrow> c | None \<Rightarrow> []), []])"

lemma group_item_ok:
  assumes "match_group (pre, [it], post) s = Some g"
  shows "item_ok it g"
proof -
  from assms obtain a b where "regex_exec (pre, [it], post) s = Some (a, g, b)"
    by (auto simp: match_group_def)
  from regex_exec_Some [OF this] obtain i where
    "match_here (pre, [it], post) (drop i s) = Some (a, g, b)"
    by blast
  then obtain ms r where fm: "first_match (pre @ [it] @ post) (drop i s) = Some (ms, r)"
    and g: "g = concat (take (length [it]) (drop (length pre) ms))"
    by (auto simp: match_here_first simp del: match_here.simps)
  from first_match_sound [OF fm] have "list_all2 item_ok (pre @ [it] @ post) ms"
    by simp
  then obtain us vs where ms: "ms = us @ vs" and us: "length us = length pre"
    and vs: "list_all2 item_ok ([it] @ post) vs"
    by (auto simp: list_all2_append1)
  from vs obtain v vs' where v: "vs = v # vs'" "item_ok it v"
    by (auto simp: list_all2_Cons1)
  from g ms us v(1) have "g = v"
    by simp
  with v(2) show ?thesis
    by simp
qed

lemma parse_chunk_fields:
  assumes "parse_chunk chunk = Some n"
  shows "type n \<in> set [''smoke'', ''molotov'', ''flashbang'', ''he'']"
    and "slug n \<noteq> []"
    and "team n = None \<or> team n = Some ''ct'' \<or> team n = Some ''t''"
proof -
  from assms obtain i s t where m: "match_group idRegex chunk = Some i"
    "match_group slugRegex chunk = Some s" "match_group typeRegex chunk = Some t"
    and n: "n = \<lparr>nade_id = i, slug = s, type = t, team = match_group teamRegex chunk,
                titleFrom = match_group titleFromRegex chunk,
                titleTo = match_group titleToRegex chunk\<rparr>"
    by (auto simp: parse_chunk_def split: option.splits)
  from group_item_ok [OF m(3) [unfolded typeRegex_def]] n
  show "type n \<in> set [''smoke'', ''molotov'', ''flashbang'', ''he'']"
    by simp
  from group_item_ok [OF m(2) [unfolded slugRegex_def]] n show "slug n \<noteq> []"
    by simp
  show "team n = None \<or> team n = Some ''ct'' \<or> team n = Some ''t''"
  proof (cases "match_group teamRegex chunk")
    case None
    with n show ?thesis by simp
  next
    case (Some tm)
    from group_item_ok [OF Some [unfolded teamRegex_def]] Some n show ?thesis
      by auto
  qed
qed

lemma extracted_fields:
  assumes "n \<in> set (extractNadesFromMapHtml html)"
  shows "type n \<in> set [''smoke'', ''molotov'', ''flashbang'', ''he'']"
    and "slug n \<noteq> []"
    and "team n = None \<or> team n = Some ''ct'' \<or> team n = Some ''t''"
  using extract_from_chunk [OF assms] parse_chunk_fields by blast+

lemma label_extracted:
  assumes "nade r \<in> set (extractNadesFromMapHtml html)"
  shows "label r = label_spec r"
proof -
  note f = extracted_fields [OF assms]
  from f(1) have ty: "type (nade r) \<noteq> []"
    by auto
  from f(3) have tm: "(case team (nade r) of None \<Rightarrow> ''ANY''
      | Some t \<Rightarrow> if t \<noteq> [] then toUpperCase t else ''ANY'')
    = (case team (nade r) of None \<Rightarrow> ''ANY'' | Some t \<Rightarrow> toUpperCase t)"
    "(case team (nade r) of None \<Rightarrow> ''ANY'' | Some t \<Rightarrow> toUpperCase t) \<noteq> []"
    by (auto simp: toUpperCase_def)
  show ?thesis
    unfolding label_def label_spec_def Let_def tm(1)
    using ty tm(2) f(2) by simp
qed

lemma render_loop_blocks:
  assumes "\<forall>r \<in> set rs. nade r \<in> set (extractNadesFromMapHtml html)"
  shows "render_loop rs lines missing =
     (lines @ concat (map record_block rs), missing + length (filter console_missing rs))"
  using assms
proof (induction rs arbitrary: lines missing)
  case Nil
  then show ?case by simp
next
  case (Cons r rs)
  from Cons.prems have "nade r \<in> set (extractNadesFromMapHtml html)"
    by simp
  then have l: "label r = label_spec r"
    by (rule label_extracted)
  from Cons.prems have "\<forall>r \<in> set rs. nade r \<in> set (extractNadesFromMapHtml html)"
    by simp
  note IH = Cons.IH [OF this]
  show ?case
    by (simp add: IH l Let_def record_block_def console_missing_def split: option.splits)
qed


lemma replace_spaces_chars: "c \<in> set (replace_spaces s) \<Longrightarrow> is_space c \<Longrightarrow> c = CHR '' ''"
  by (induction s rule: replace_spaces.induct) (auto split: if_splits)

lemma set_trim: "set (trim s) \<subseteq> set s"
proof -
  have "set (dropWhile P xs) \<subseteq> set xs" for P and xs :: string
    by (auto dest: set_dropWhileD)
  then show ?thesis
    unfolding trim_def by (metis set_rev subset_trans)
qed

lemma sanitizeComment_line: "LF \<notin> set (sanitizeComment s)" "CR \<notin> set (sanitizeComment s)"
proof -
  have sp: "is_space LF" "is_space CR" "LF \<noteq> CHR '' ''" "CR \<noteq> CHR '' ''"
    by (simp_all add: is_space_def LF_def CR_def)
  have "c \<in> set (sanitizeComment s) \<Longrightarrow> is_space c \<Longrightarrow> c = CHR '' ''" for c
    using set_trim replace_spaces_chars unfolding sanitizeComment_def by blast
  with sp show "LF \<notin> set (sanitizeComment s)" "CR \<notin> set (sanitizeComment s)"
    by blast+
qed

lemma label_spec_line:
  assumes "nade r \<in> set (extractNadesFromMapHtml html)"
    and "LF \<notin> set (slug (nade r))" and "CR \<notin> set (slug (nade r))"
  shows "LF \<notin> set (''// '' @ label_spec r) \<and> CR \<notin> set (''// '' @ label_spec r)"
proof -
  note f = extracted_fields [OF assms(1)]
  from f(1) have ty: "LF \<notin> set (type (nade r))" "CR \<notin> set (type (nade r))"
    by (auto simp: LF_def CR_def)
  from f(3) have tm: "LF \<notin> set (case team (nade r) of None \<Rightarrow> ''ANY'' | Some t \<Rightarrow> toUpperCase t)"
    "CR \<notin> set (case team (nade r) of None \<Rightarrow> ''ANY'' | Some t \<Rightarrow> toUpperCase t)"
    by (auto simp: LF_def CR_def toUpperCase_def upper_char_def)
  have lit: "LF \<notin> set '' | ''" "CR \<notin> set '' | ''" "LF \<notin> set '' -> ''" "CR \<notin> set '' -> ''"
    "LF \<notin> set ''// ''" "CR \<notin> set ''// ''"
    by (simp_all add: LF_def CR_def)
  let ?third = "if sanitizeComment (titleFrom (nade r)) \<noteq> [] \<and> sanitizeComment (titleTo (nade r)) \<noteq> []
        then sanitizeComment (titleFrom (nade r)) @ '' -> '' @ sanitizeComment (titleTo (nade r))
        else slug (nade r)"
  have third: "LF \<notin> set ?third" "CR \<notin> set ?third"
    using lit(3,4) sanitizeComment_line assms(2,3) by (simp_all only: set_append Un_iff split: if_split) blast+
  have "set (''// '' @ label_spec r) = set ''// '' \<union> set (type (nade r)) \<union> set '' | ''
      \<union> set (case team (nade r) of None \<Rightarrow> ''ANY'' | Some t \<Rightarrow> toUpperCase t) \<union> set ?third"
    unfolding label_spec_def set_append by blast
  with ty tm lit third show ?thesis
    by blast
qed

text \<open>
  Claim C7, as the specification states it: the label is one line and shows the two
  titles when both are present. It fails for a title that is present and blank: the
  label shows the slug. And with a line feed in the slug the label is not one line.
\<close>

theorem blank_title_label:
  "extractNadesFromMapHtml
     (q @ ''id'' @ q @ '':'' @ q @ ''nade_1'' @ q @ '','' @ q @ ''slug'' @ q @ '':'' @ q @ ''a''
      @ q @ '','' @ q @ ''type'' @ q @ '':'' @ q @ ''smoke'' @ q @ '','' @ q @ ''titleFrom'' @ q
      @ '':'' @ q @ '' '' @ q @ '','' @ q @ ''titleTo'' @ q @ '':'' @ q @ ''B'' @ q)
     = [\<lparr>nade_id = ''nade_1'', slug = ''a'', type = ''smoke'', team = None,
          titleFrom = Some '' '', titleTo = Some ''B''\<rparr>]
   \<and> label \<lparr>nade = \<lparr>nade_id = ''nade_1'', slug = ''a'', type = ''smoke'', team = None,
                   titleFrom = Some '' '', titleTo = Some ''B''\<rparr>,
          console = None, error = None, url = None\<rparr> = ''smoke | ANY | a''
   \<and> label \<lparr>nade = \<lparr>nade_id = ''nade_1'', slug = ''a'' @ [LF] @ ''b'', type = ''smoke'',
                     team = None, titleFrom = None, titleTo = None\<rparr>,
            console = None, error = None, url = None\<rparr> = ''smoke | ANY | a'' @ [LF] @ ''b''"
  by code_simp

text \<open>
  Claim C7, amended. For results whose records were extracted from a listing, the
  text written is the header followed by the block of each result, in order, and each
  block begins with the label line: the type, then the team in upper case or \<open>ANY\<close>
  when there is none, then the two titles, normalised, with an arrow between them when
  both are non-empty after the normalisation, or else the slug. The label line has no
  line break when the slug has none. When the console text is absent, the block has the
  marker line \<open>MISSING_CONSOLE\<close> and the record is one of those counted in the line
  \<open>Missing console: n\<close> that is logged.
\<close>

theorem record_block_rendering:
  assumes "set (map nade results) \<subseteq> set (extractNadesFromMapHtml html)"
  shows "render baseUrl mapSlug results =
      \<lparr>content = join [LF]
         ([''// Generated from '' @ baseUrl @ ''/'' @ mapSlug,
           ''// Total nades: '' @ decimal (length results), []]
          @ concat (map record_block results)),
       missing_log =
         (if length (filter console_missing results) \<noteq> 0
          then Some (''Missing console: '' @ decimal (length (filter console_missing results)))
          else None)\<rparr>
    \<and> (\<forall>r \<in> set results.
          (\<exists>rest. record_block r = (''// '' @ label_spec r) # rest)
        \<and> (LF \<notin> set (slug (nade r)) \<and> CR \<notin> set (slug (nade r)) \<longrightarrow>
              LF \<notin> set (''// '' @ label_spec r) \<and> CR \<notin> set (''// '' @ label_spec r))
        \<and> (console r = None \<longrightarrow>
              ''// MISSING_CONSOLE'' \<in> set (record_block r) \<and> console_missing r))"
proof -
  from assms have ex: "\<forall>r \<in> set results. nade r \<in> set (extractNadesFromMapHtml html)"
    by auto
  have 1: "render baseUrl mapSlug results =
      \<lparr>content = join [LF]
         ([''// Generated from '' @ baseUrl @ ''/'' @ mapSlug,
           ''// Total nades: '' @ decimal (length results), []]
          @ concat (map record_block results)),
       missing_log =
         (if length (filter console_missing results) \<noteq> 0
          then Some (''Missing console: '' @ decimal (length (filter console_missing results)))
          else None)\<rparr>"
    unfolding render_def Let_def render_loop_blocks [OF ex] by simp
  have 2: "(\<exists>rest. record_block r = (''// '' @ label_spec r) # rest)
        \<and> (LF \<notin> set (slug (nade r)) \<and> CR \<notin> set (slug (nade r)) \<longrightarrow>
              LF \<notin> set (''// '' @ label_spec r) \<and> CR \<notin> set (''// '' @ label_spec r))
        \<and> (console r = None \<longrightarrow>
              ''// MISSING_CONSOLE'' \<in> set (record_block r) \<and> console_missing r)"
    if "r \<in> set results" for r
  proof -
    from that ex have n: "nade r \<in> set (extractNadesFromMapHtml html)"
      by blast
    have "\<exists>rest. record_block r = (''// '' @ label_spec r) # rest"
      by (simp add: record_block_def)
    moreover have "LF \<notin> set (slug (nade r)) \<and> CR \<notin> set (slug (nade r)) \<longrightarrow>
              LF \<notin> set (''// '' @ label_spec r) \<and> CR \<notin> set (''// '' @ label_spec r)"
      using label_spec_line [OF n] by blast
    moreover have "console r = None \<longrightarrow>
              ''// MISSING_CONSOLE'' \<in> set (record_block r) \<and> console_missing r"
      by (simp add: record_block_def console_missing_def)
    ultimately show ?thesis
      by blast
  qed
  from 1 2 show ?thesis
    by blast
qed


theorem record_block_rendering_witness:
  "set (map nade
     [\<lparr>nade = \<lparr>nade_id = ''nade_1'', slug = ''a'', type = ''smoke'', team = Some ''t'',
                titleFrom = None, titleTo = None\<rparr>,
       console = Some ''setpos 1 2 3;setang 4 5 6'', error = None, url = Some ''B/m/smokes/a''\<rparr>,
      \<lparr>nade = \<lparr>nade_id = ''nade_2'', slug = ''b'', type = ''flashbang'', team = None,
                titleFrom = None, titleTo = None\<rparr>,
       console = None, error = None, url = Some ''B/m/flashbangs/b''\<rparr>])
     \<subseteq> set (extractNadesFromMapHtml listing_example)
   \<and> render ''B'' ''m''
     [\<lparr>nade = \<lparr>nade_id = ''nade_1'', slug = ''a'', type = ''smoke'', team = Some ''t'',
                titleFrom = None, titleTo = None\<rparr>,
       console = Some ''setpos 1 2 3;setang 4 5 6'', error = None, url = Some ''B/m/smokes/a''\<rparr>,
      \<lparr>nade = \<lparr>nade_id = ''nade_2'', slug = ''b'', type = ''flashbang'', team = None,
                titleFrom = None, titleTo = None\<rparr>,
       console = None, error = None, url = Some ''B/m/flashbangs/b''\<rparr>]
     = \<lparr>content = join [LF]
          [''// Generated from B/m'', ''// Total nades: 2'', [],
           ''// smoke | T | a'', ''// B/m/smokes/a'', ''setpos 1 2 3;setang 4 5 6'', [],
           ''// flashbang | ANY | b'', ''// B/m/flashbangs/b'', ''// MISSING_CONSOLE'', []],
        missing_log = Some ''Missing console: 1''\<rparr>"
  (is "set (map nade ?R) \<subseteq> ?E \<and> render ''B'' ''m'' ?R = ?out")
proof -
  have h: "set (map nade ?R) \<subseteq> ?E"
    by code_simp
  from record_block_rendering [OF h, of "''B''" "''m''", THEN conjunct1]
  have "render ''B'' ''m'' ?R =
      \<lparr>content = join [LF]
         ([''// Generated from '' @ ''B'' @ ''/'' @ ''m'',
           ''// Total nades: '' @ decimal (length ?R), []]
          @ concat (map record_block ?R)),
       missing_log =
         (if length (filter console_missing ?R) \<noteq> 0
          then Some (''Missing console: '' @ decimal (length (filter console_missing ?R)))
          else None)\<rparr>" .
  also have "\<dots> = ?out"
    by code_simp
  finally show ?thesis
    using h by blast
qed

end
